theory Spec2Isabelle
  imports Main "HOL-Library.Word" "HOL-Library.Multiset"
begin

section \<open>The striped hash map of lock\_free\_hash\_table.h, run sequentially\<close>

text \<open>
  The class \<open>ConcurrentHashMap<K, V, Hash>\<close> is embedded as a record and its member
  functions as functions from the old object to an error or the new object. The mutexes
  are left out: every theorem below is about one thread calling the operations one after
  another. Undefined behaviour of the C++ (a division or a remainder by zero, an index
  past the end of a vector) and the two exceptions (\<open>std::out_of_range\<close> of \<open>At\<close>,
  \<open>std::length_error\<close> of a bucket array longer than \<open>max_size()\<close>) are values of type
  \<open>error\<close>.

  \<open>size_t\<close> is a natural number below \<open>2 ^ 64\<close> with the wrap-around written out,
  \<open>int\<close> is a 32-bit word read with \<open>sint\<close>. Memory is unbounded: a vector of any
  length up to its \<open>max_size()\<close> can be allocated. The deque of mutexes and the outer
  vector have one element per shard, at most the hardware hint, and are taken to fit.
\<close>

subsection \<open>Integers\<close>

datatype error =
    DivisionByZero      \<comment> \<open>operator \<open>/\<close> with a zero divisor\<close>
  | ModuloByZero        \<comment> \<open>operator \<open>%\<close> with a zero divisor, in \<open>GetHash\<close>\<close>
  | IndexOutOfBounds    \<comment> \<open>\<open>operator[]\<close> past the end of a vector\<close>
  | OutOfRange          \<comment> \<open>\<open>std::out_of_range\<close>, thrown by \<open>At\<close>\<close>
  | LengthError         \<comment> \<open>\<open>std::length_error\<close>, thrown by a vector constructor asked for more
                            than \<open>max_size()\<close> elements\<close>

type_synonym c_int = "32 word"

definition size_t_of_int :: "c_int \<Rightarrow> nat" where
  \<comment> \<open>the conversion of an \<open>int\<close> to \<open>size_t\<close>: the value modulo \<open>2 ^ 64\<close>\<close>
  "size_t_of_int i = nat (sint i mod 2 ^ 64)"

definition int_of_size_t :: "nat \<Rightarrow> c_int" where
  \<comment> \<open>the narrowing of a \<open>size_t\<close> passed for an \<open>int\<close> parameter: the low 32 bits\<close>
  "int_of_size_t n = word_of_nat n"

definition add_sz :: "nat \<Rightarrow> nat \<Rightarrow> nat" where
  "add_sz a b = (a + b) mod 2 ^ 64"

definition sub_sz :: "nat \<Rightarrow> nat \<Rightarrow> nat" where
  "sub_sz a b = (a + (2 ^ 64 - b mod 2 ^ 64)) mod 2 ^ 64"

definition mul_sz :: "nat \<Rightarrow> nat \<Rightarrow> nat" where
  "mul_sz a b = (a * b) mod 2 ^ 64"

subsection \<open>The object\<close>

definition kDefaultSize :: nat where
  "kDefaultSize = 29"

definition kLimitCollisions :: nat where
  "kLimitCollisions = 25"

definition max_size :: nat where
  \<comment> \<open>\<open>max_size()\<close> of \<open>std::vector<std::vector<std::pair<K, V>>>\<close>, the bucket array of a
      shard: \<open>PTRDIFF_MAX\<close> over the 24 bytes of an element (libstdc++, 64 bit)\<close>
  "max_size = (2 ^ 63 - 1) div 24"

type_synonym ('k, 'v) bucket = "('k \<times> 'v) list"

type_synonym ('k, 'v) buckets = "('k, 'v) bucket list list"

record ('k, 'v) ConcurrentHashMap =
  count_threads :: nat
  storage_size :: nat
  size_m :: nat
  hash_function :: "'k \<Rightarrow> nat"
  storage :: "('k, 'v) buckets"

text \<open>
  \<open>kDefaultConcurrencyLevel\<close> is \<open>std::thread::hardware_concurrency()\<close> stored in an
  \<open>int\<close>; it is the parameter \<open>hw\<close> of every function that constructs a map.
\<close>

definition ConcurrentHashMap_default ::
  "c_int \<Rightarrow> ('k \<Rightarrow> nat) \<Rightarrow> ('k, 'v) ConcurrentHashMap" where
  "ConcurrentHashMap_default hw hasher =
     \<lparr>count_threads = size_t_of_int hw, storage_size = kDefaultSize, size_m = 0,
      hash_function = hasher,
      storage = replicate (size_t_of_int hw) (replicate kDefaultSize [])\<rparr>"

definition ConcurrentHashMap_sized ::
  "c_int \<Rightarrow> c_int \<Rightarrow> ('k \<Rightarrow> nat) \<Rightarrow> error + ('k, 'v) ConcurrentHashMap" where
  "ConcurrentHashMap_sized hw expected_size hasher =
     (let ct = size_t_of_int hw in
      if ct = 0 then Inl DivisionByZero
      else
        let ss = max kDefaultSize (sub_sz (add_sz (size_t_of_int expected_size) ct) 1 div ct)
        in if max_size < ss then Inl LengthError
           else Inr \<lparr>count_threads = ct, storage_size = ss, size_m = 0, hash_function = hasher,
                     storage = replicate ct (replicate ss [])\<rparr>)"

definition ConcurrentHashMap_sized_threads ::
  "c_int \<Rightarrow> c_int \<Rightarrow> c_int \<Rightarrow> ('k \<Rightarrow> nat) \<Rightarrow> error + ('k, 'v) ConcurrentHashMap" where
  "ConcurrentHashMap_sized_threads hw expected_size expected_threads_count hasher =
     (let ct = min (size_t_of_int hw) (size_t_of_int expected_threads_count) in
      if ct = 0 then Inl DivisionByZero
      else
        let ss = max kDefaultSize (sub_sz (add_sz (size_t_of_int expected_size) ct) 1 div ct)
        in if max_size < ss then Inl LengthError
           else Inr \<lparr>count_threads = ct, storage_size = ss, size_m = 0, hash_function = hasher,
                     storage = replicate ct (replicate ss [])\<rparr>)"

subsection \<open>Addressing\<close>

definition GetHash :: "('k \<Rightarrow> nat) \<Rightarrow> 'k \<Rightarrow> nat \<Rightarrow> error + nat" where
  "GetHash hasher key m = (if m = 0 then Inl ModuloByZero else Inr (hasher key mod m))"

definition bucket_at :: "('k, 'v) buckets \<Rightarrow> nat \<Rightarrow> nat \<Rightarrow> error + ('k, 'v) bucket" where
  \<comment> \<open>\<open>storage_[extern_index][intern_index]\<close>, read\<close>
  "bucket_at st extern_index intern_index =
     (if extern_index < length st \<and> intern_index < length (st ! extern_index)
      then Inr (st ! extern_index ! intern_index) else Inl IndexOutOfBounds)"

definition set_bucket ::
  "('k, 'v) buckets \<Rightarrow> nat \<Rightarrow> nat \<Rightarrow> ('k, 'v) bucket \<Rightarrow> ('k, 'v) buckets" where
  \<comment> \<open>\<open>storage_[extern_index][intern_index]\<close>, written; used only where \<open>bucket_at\<close> succeeded\<close>
  "set_bucket st extern_index intern_index b =
     st[extern_index := (st ! extern_index)[intern_index := b]]"

definition emplace_back ::
  "('k, 'v) buckets \<Rightarrow> nat \<Rightarrow> nat \<Rightarrow> 'k \<times> 'v \<Rightarrow> error + ('k, 'v) buckets" where
  "emplace_back st extern_index intern_index e =
     (case bucket_at st extern_index intern_index of
        Inl err \<Rightarrow> Inl err
      | Inr b \<Rightarrow> Inr (set_bucket st extern_index intern_index (b @ [e])))"

primrec key_index :: "'k \<Rightarrow> ('k, 'v) bucket \<Rightarrow> nat option" where
  \<comment> \<open>the linear scan of a bucket: the first index whose key is \<open>key\<close>\<close>
  "key_index key [] = None"
| "key_index key (e # es) =
     (if fst e = key then Some 0 else map_option Suc (key_index key es))"

subsection \<open>Rehashing\<close>

primrec rehash_entries ::
  "('k \<Rightarrow> nat) \<Rightarrow> nat \<Rightarrow> nat \<Rightarrow> ('k, 'v) bucket \<Rightarrow> ('k, 'v) buckets \<Rightarrow> error + ('k, 'v) buckets"
  where
  \<comment> \<open>the innermost loop, over the entries of one old bucket\<close>
  "rehash_entries hasher ct new_ss [] new = Inr new"
| "rehash_entries hasher ct new_ss (e # es) new =
     (case GetHash hasher (fst e) ct of
        Inl err \<Rightarrow> Inl err
      | Inr new_ex_ind \<Rightarrow>
          (case GetHash hasher (fst e) new_ss of
             Inl err \<Rightarrow> Inl err
           | Inr new_in_ind \<Rightarrow>
               (case emplace_back new new_ex_ind new_in_ind e of
                  Inl err \<Rightarrow> Inl err
                | Inr new' \<Rightarrow> rehash_entries hasher ct new_ss es new')))"

primrec rehash_buckets ::
  "('k \<Rightarrow> nat) \<Rightarrow> nat \<Rightarrow> nat \<Rightarrow> ('k, 'v) buckets \<Rightarrow> nat \<Rightarrow> nat list \<Rightarrow> ('k, 'v) buckets
     \<Rightarrow> error + ('k, 'v) buckets" where
  \<comment> \<open>the middle loop, over the values of \<open>intern_index\<close>\<close>
  "rehash_buckets hasher ct new_ss old extern_index [] new = Inr new"
| "rehash_buckets hasher ct new_ss old extern_index (intern_index # rest) new =
     (case bucket_at old extern_index intern_index of
        Inl err \<Rightarrow> Inl err
      | Inr b \<Rightarrow>
          (case rehash_entries hasher ct new_ss b new of
             Inl err \<Rightarrow> Inl err
           | Inr new' \<Rightarrow> rehash_buckets hasher ct new_ss old extern_index rest new'))"

primrec rehash_shards ::
  "('k \<Rightarrow> nat) \<Rightarrow> nat \<Rightarrow> nat \<Rightarrow> nat \<Rightarrow> ('k, 'v) buckets \<Rightarrow> nat list \<Rightarrow> ('k, 'v) buckets
     \<Rightarrow> error + ('k, 'v) buckets" where
  \<comment> \<open>the outer loop, over the values of \<open>extern_index\<close>\<close>
  "rehash_shards hasher ct ss new_ss old [] new = Inr new"
| "rehash_shards hasher ct ss new_ss old (extern_index # rest) new =
     (case rehash_buckets hasher ct new_ss old extern_index [0..<ss] new of
        Inl err \<Rightarrow> Inl err
      | Inr new' \<Rightarrow> rehash_shards hasher ct ss new_ss old rest new')"

definition Rehashing ::
  "c_int \<Rightarrow> ('k, 'v) ConcurrentHashMap \<Rightarrow> error + ('k, 'v) ConcurrentHashMap" where
  "Rehashing hw m =
     (let ct = count_threads m; ss = storage_size m in
      case ConcurrentHashMap_sized_threads hw (int_of_size_t (mul_sz (mul_sz ss ct) 3))
             (int_of_size_t ct) (hash_function m) of
        Inl err \<Rightarrow> Inl err
      | Inr hash_map \<Rightarrow>
          (case rehash_shards (hash_function m) ct ss (storage_size hash_map) (storage m)
                  [0..<ct] (storage hash_map) of
             Inl err \<Rightarrow> Inl err
           | Inr new \<Rightarrow>
               if ct = 0 then Inl DivisionByZero
               else Inr (m\<lparr>storage := new,
                           storage_size :=
                             sub_sz (add_sz (mul_sz (mul_sz ss ct) 3) ct) 1 div ct\<rparr>)))"

subsection \<open>Point operations\<close>

definition Insert ::
  "c_int \<Rightarrow> ('k, 'v) ConcurrentHashMap \<Rightarrow> 'k \<Rightarrow> 'v
     \<Rightarrow> error + (bool \<times> ('k, 'v) ConcurrentHashMap)" where
  "Insert hw m key val =
     (case GetHash (hash_function m) key (count_threads m) of
        Inl err \<Rightarrow> Inl err
      | Inr extern_index \<Rightarrow>
     (case GetHash (hash_function m) key (storage_size m) of
        Inl err \<Rightarrow> Inl err
      | Inr intern_index \<Rightarrow>
     (case bucket_at (storage m) extern_index intern_index of
        Inl err \<Rightarrow> Inl err
      | Inr b \<Rightarrow>
     (case key_index key b of
        Some i \<Rightarrow> Inr (False, m)
      | None \<Rightarrow>
          let m1 = m\<lparr>size_m := add_sz (size_m m) 1,
                     storage := set_bucket (storage m) extern_index intern_index
                                  (b @ [(key, val)])\<rparr>
          in if length (b @ [(key, val)]) < kLimitCollisions then Inr (True, m1)
             else (case Rehashing hw m1 of
                     Inl err \<Rightarrow> Inl err
                   | Inr m2 \<Rightarrow> Inr (True, m2))))))"

definition Erase ::
  "('k, 'v) ConcurrentHashMap \<Rightarrow> 'k \<Rightarrow> error + (bool \<times> ('k, 'v) ConcurrentHashMap)" where
  "Erase m key =
     (case GetHash (hash_function m) key (count_threads m) of
        Inl err \<Rightarrow> Inl err
      | Inr extern_index \<Rightarrow>
     (case GetHash (hash_function m) key (storage_size m) of
        Inl err \<Rightarrow> Inl err
      | Inr intern_index \<Rightarrow>
     (case bucket_at (storage m) extern_index intern_index of
        Inl err \<Rightarrow> Inl err
      | Inr b \<Rightarrow>
     (case key_index key b of
        Some i \<Rightarrow>
          Inr (True,
               m\<lparr>size_m := sub_sz (size_m m) 1,
                 storage := set_bucket (storage m) extern_index intern_index
                              (butlast (b[i := last b]))\<rparr>)
      | None \<Rightarrow> Inr (False, m)))))"

definition Clear :: "('k, 'v) ConcurrentHashMap \<Rightarrow> ('k, 'v) ConcurrentHashMap" where
  "Clear m =
     m\<lparr>size_m := 0, storage_size := kDefaultSize,
       storage := replicate (count_threads m) (replicate kDefaultSize [])\<rparr>"

definition Find ::
  "('k, 'v) ConcurrentHashMap \<Rightarrow> 'v \<Rightarrow> 'k \<Rightarrow> error + (bool \<times> 'v)" where
  \<comment> \<open>\<open>dflt\<close> is \<open>V()\<close>, the value-initialised \<open>V\<close>\<close>
  "Find m dflt key =
     (case GetHash (hash_function m) key (count_threads m) of
        Inl err \<Rightarrow> Inl err
      | Inr extern_index \<Rightarrow>
     (case GetHash (hash_function m) key (storage_size m) of
        Inl err \<Rightarrow> Inl err
      | Inr intern_index \<Rightarrow>
     (case bucket_at (storage m) extern_index intern_index of
        Inl err \<Rightarrow> Inl err
      | Inr b \<Rightarrow>
     (case key_index key b of
        Some i \<Rightarrow> Inr (True, snd (b ! i))
      | None \<Rightarrow> Inr (False, dflt)))))"

definition At :: "('k, 'v) ConcurrentHashMap \<Rightarrow> 'k \<Rightarrow> error + 'v" where
  "At m key =
     (case GetHash (hash_function m) key (count_threads m) of
        Inl err \<Rightarrow> Inl err
      | Inr extern_index \<Rightarrow>
     (case GetHash (hash_function m) key (storage_size m) of
        Inl err \<Rightarrow> Inl err
      | Inr intern_index \<Rightarrow>
     (case bucket_at (storage m) extern_index intern_index of
        Inl err \<Rightarrow> Inl err
      | Inr b \<Rightarrow>
     (case key_index key b of
        Some i \<Rightarrow> Inr (snd (b ! i))
      | None \<Rightarrow> Inl OutOfRange))))"

definition Size :: "('k, 'v) ConcurrentHashMap \<Rightarrow> nat" where
  "Size m = size_m m"

subsection \<open>Sequences of operations\<close>

datatype ('k, 'v) operation =
    OpInsert 'k 'v
  | OpErase 'k
  | OpFind 'k
  | OpAt 'k
  | OpClear
  | OpRehash

fun apply_op ::
  "c_int \<Rightarrow> 'v \<Rightarrow> ('k, 'v) operation \<Rightarrow> ('k, 'v) ConcurrentHashMap
     \<Rightarrow> error + ('k, 'v) ConcurrentHashMap" where
  \<comment> \<open>the object after one call; the exception of \<open>At\<close> is caught by the caller and
      leaves the object as it was, undefined behaviour and \<open>std::length_error\<close> end the
      run\<close>
  "apply_op hw dflt (OpInsert key val) m =
     (case Insert hw m key val of Inl err \<Rightarrow> Inl err | Inr r \<Rightarrow> Inr (snd r))"
| "apply_op hw dflt (OpErase key) m =
     (case Erase m key of Inl err \<Rightarrow> Inl err | Inr r \<Rightarrow> Inr (snd r))"
| "apply_op hw dflt (OpFind key) m =
     (case Find m dflt key of Inl err \<Rightarrow> Inl err | Inr r \<Rightarrow> Inr m)"
| "apply_op hw dflt (OpAt key) m =
     (case At m key of
        Inl err \<Rightarrow> if err = OutOfRange then Inr m else Inl err
      | Inr r \<Rightarrow> Inr m)"
| "apply_op hw dflt OpClear m = Inr (Clear m)"
| "apply_op hw dflt OpRehash m = Rehashing hw m"

fun trace ::
  "c_int \<Rightarrow> 'v \<Rightarrow> ('k, 'v) operation list \<Rightarrow> ('k, 'v) ConcurrentHashMap
     \<Rightarrow> ('k, 'v) ConcurrentHashMap list" where
  \<comment> \<open>the objects at the quiescent points of a run: before the first call and after
      each call that returned\<close>
  "trace hw dflt [] m = [m]"
| "trace hw dflt (x # xs) m =
     m # (case apply_op hw dflt x m of Inl err \<Rightarrow> [] | Inr m' \<Rightarrow> trace hw dflt xs m')"

fun run ::
  "c_int \<Rightarrow> 'v \<Rightarrow> ('k, 'v) operation list \<Rightarrow> ('k, 'v) ConcurrentHashMap
     \<Rightarrow> error + ('k, 'v) ConcurrentHashMap" where
  "run hw dflt [] m = Inr m"
| "run hw dflt (x # xs) m =
     (case apply_op hw dflt x m of Inl err \<Rightarrow> Inl err | Inr m' \<Rightarrow> run hw dflt xs m')"

subsection \<open>What the claims speak of\<close>

definition entries :: "('k, 'v) ConcurrentHashMap \<Rightarrow> ('k \<times> 'v) list" where
  \<comment> \<open>every entry of every bucket of every shard, in the order of the three loops\<close>
  "entries m = concat (map concat (storage m))"

definition keys :: "('k, 'v) ConcurrentHashMap \<Rightarrow> 'k set" where
  "keys m = fst ` set (entries m)"

definition unique_keys :: "('k, 'v) ConcurrentHashMap \<Rightarrow> bool" where
  \<comment> \<open>no key stands in two slots, nor twice in one\<close>
  "unique_keys m \<longleftrightarrow> distinct (map fst (entries m))"

definition shape :: "nat \<Rightarrow> nat \<Rightarrow> ('k, 'v) buckets \<Rightarrow> bool" where
  "shape ct ss st \<longleftrightarrow> length st = ct \<and> list_all (\<lambda>sh. length sh = ss) st"

definition addressed :: "('k \<Rightarrow> nat) \<Rightarrow> nat \<Rightarrow> nat \<Rightarrow> ('k, 'v) buckets \<Rightarrow> bool" where
  \<comment> \<open>every entry lies in the bucket that \<open>GetHash\<close> gives for its key\<close>
  "addressed hasher ct ss st \<longleftrightarrow>
     (\<forall>ex < length st. \<forall>ind < length (st ! ex). \<forall>e \<in> set (st ! ex ! ind).
        hasher (fst e) mod ct = ex \<and> hasher (fst e) mod ss = ind)"

definition wf :: "c_int \<Rightarrow> ('k, 'v) ConcurrentHashMap \<Rightarrow> bool" where
  \<comment> \<open>what the constructors establish for a positive shard count, and the operations
      keep as long as every resize has a bucket budget within \<open>int\<close> (\<open>rehash_fits\<close>)\<close>
  "wf hw m \<longleftrightarrow>
     0 < count_threads m \<and> count_threads m \<le> size_t_of_int hw \<and> count_threads m < 2 ^ 31 \<and>
     kDefaultSize \<le> storage_size m \<and>
     shape (count_threads m) (storage_size m) (storage m) \<and>
     addressed (hash_function m) (count_threads m) (storage_size m) (storage m) \<and>
     unique_keys m \<and>
     size_m m = length (entries m) mod 2 ^ 64"

definition rehash_fits :: "('k, 'v) ConcurrentHashMap \<Rightarrow> bool" where
  \<comment> \<open>the first argument of the constructor call in \<open>Rehashing\<close> is representable
      in its parameter type \<open>int\<close>\<close>
  "rehash_fits m \<longleftrightarrow> storage_size m * count_threads m * 3 < 2 ^ 31"

definition constructed ::
  "c_int \<Rightarrow> ('k, 'v) ConcurrentHashMap \<Rightarrow> bool" where
  \<comment> \<open>\<open>m\<close> is the object one of the three constructors returns\<close>
  "constructed hw m \<longleftrightarrow>
     m = ConcurrentHashMap_default hw (hash_function m) \<or>
     (\<exists>expected_size. ConcurrentHashMap_sized hw expected_size (hash_function m) = Inr m) \<or>
     (\<exists>expected_size expected_threads_count.
        ConcurrentHashMap_sized_threads hw expected_size expected_threads_count
          (hash_function m) = Inr m)"

definition ceiling_div :: "nat \<Rightarrow> nat \<Rightarrow> nat" where
  \<comment> \<open>the quotient rounded up, as the specification writes \<open>ceil(a / b)\<close>\<close>
  "ceiling_div a b = (if a mod b = 0 then a div b else a div b + 1)"

definition bucket_of :: "('k, 'v) ConcurrentHashMap \<Rightarrow> 'k \<Rightarrow> ('k, 'v) bucket" where
  \<comment> \<open>the bucket the point operations scan for \<open>key\<close>, when both indices are in range\<close>
  "bucket_of m key =
     storage m ! (hash_function m key mod count_threads m)
               ! (hash_function m key mod storage_size m)"

definition appended :: "('k, 'v) ConcurrentHashMap \<Rightarrow> 'k \<Rightarrow> 'v \<Rightarrow> ('k, 'v) ConcurrentHashMap" where
  \<comment> \<open>the object of \<open>Insert\<close> after \<open>++size_\<close> and \<open>emplace_back\<close>, before the test
      against \<open>kLimitCollisions\<close>\<close>
  "appended m key val =
     m\<lparr>size_m := add_sz (size_m m) 1,
       storage := set_bucket (storage m) (hash_function m key mod count_threads m)
                    (hash_function m key mod storage_size m) (bucket_of m key @ [(key, val)])\<rparr>"

subsection \<open>Objects and runs for the examples\<close>

definition crowded :: "(nat, nat) ConcurrentHashMap" where
  \<comment> \<open>one shard of 29 buckets, every key hashed to 0, and the 24 entries
      \<open>(i, 10 * i)\<close> for \<open>i = 0, ..., 23\<close> in bucket 0\<close>
  "crowded =
     \<lparr>count_threads = 1, storage_size = 29, size_m = 24, hash_function = (\<lambda>k. 0),
      storage = [map (\<lambda>i. (i, 10 * i)) [0..<24] # replicate 28 []]\<rparr>"

fun inserts_distinct_erases_present :: "'k list \<Rightarrow> 'k list \<Rightarrow> ('k, 'v) operation list \<Rightarrow> bool"
  where
  \<comment> \<open>a mixture of inserts of distinct keys and erases of previously inserted keys:
      \<open>seen\<close> are the keys inserted so far, \<open>present\<close> those not erased since\<close>
  "inserts_distinct_erases_present seen present [] = True"
| "inserts_distinct_erases_present seen present (OpInsert key val # xs) =
     (key \<notin> set seen \<and> inserts_distinct_erases_present (key # seen) (key # present) xs)"
| "inserts_distinct_erases_present seen present (OpErase key # xs) =
     (key \<in> set present \<and> inserts_distinct_erases_present seen (removeAll key present) xs)"
| "inserts_distinct_erases_present seen present (x # xs) = False"

fun count_inserts :: "('k, 'v) operation list \<Rightarrow> nat" where
  "count_inserts [] = 0"
| "count_inserts (OpInsert key val # xs) = Suc (count_inserts xs)"
| "count_inserts (x # xs) = count_inserts xs"

fun count_erases :: "('k, 'v) operation list \<Rightarrow> nat" where
  "count_erases [] = 0"
| "count_erases (OpErase key # xs) = Suc (count_erases xs)"
| "count_erases (x # xs) = count_erases xs"

definition far_hash :: "nat \<Rightarrow> nat" where
  \<comment> \<open>a hash function with values below \<open>2 ^ 64\<close> that sends every key to bucket 5 of
      1431655766 buckets and of 4294967298 buckets, but not of 29 buckets\<close>
  "far_hash k = 5 + 4294967298 * (k mod 32)"

definition wide :: "(nat, nat) ConcurrentHashMap" where
  \<comment> \<open>the object that \<open>ConcurrentHashMap(1431655766, 1, far_hash)\<close> constructs: one shard
      of 1431655766 buckets, three times which is \<open>2 ^ 32 + 2\<close>\<close>
  "wide = \<lparr>count_threads = 1, storage_size = 1431655766, size_m = 0, hash_function = far_hash,
            storage = replicate 1 (replicate 1431655766 [])\<rparr>"

primrec filled :: "nat \<Rightarrow> (nat, nat) ConcurrentHashMap" where
  \<comment> \<open>\<open>wide\<close> after the entries \<open>(i, 10 * i)\<close> for \<open>i = 1, ..., n\<close> were appended\<close>
  "filled 0 = wide"
| "filled (Suc n) = appended (filled n) (Suc n) (10 * Suc n)"

section \<open>Lemmas\<close>

subsection \<open>Buckets and their updates\<close>

lemma key_index_None: "key_index k b = None \<longleftrightarrow> k \<notin> fst ` set b"
  by (induction b) auto

lemma key_index_Some:
  "key_index k b = Some i \<Longrightarrow> i < length b \<and> fst (b ! i) = k"
  by (induction b arbitrary: i) (auto split: if_splits)

lemma mset_swap_pop:
  "i < length b \<Longrightarrow> mset (butlast (b[i := last b])) = mset b - {#b ! i#}"
proof (induction b rule: rev_induct)
  case Nil
  then show ?case by simp
next
  case (snoc l xs)
  show ?case
  proof (cases "i < length xs")
    case True
    then show ?thesis
      by (simp add: list_update_append nth_append mset_update)
  next
    case False
    with snoc.prems have "i = length xs" by simp
    then show ?thesis by simp
  qed
qed

lemma mset_concat_update:
  "i < length xs \<Longrightarrow>
     mset (concat (xs[i := y])) + mset (xs ! i) = mset (concat xs) + mset y"
proof (induction xs arbitrary: i)
  case Nil
  then show ?case by simp
next
  case (Cons x xs)
  then show ?case by (cases i) (auto simp: ac_simps)
qed

lemma mset_entries_set_bucket:
  assumes "ex < length st" "ind < length (st ! ex)"
  shows "mset (concat (map concat (set_bucket st ex ind b))) + mset (st ! ex ! ind)
           = mset (concat (map concat st)) + mset b"
proof -
  let ?sh = "st ! ex"
  have inner: "mset (concat (?sh[ind := b])) + mset (?sh ! ind) = mset (concat ?sh) + mset b"
    using assms(2) by (rule mset_concat_update)
  have "map concat (set_bucket st ex ind b) = (map concat st)[ex := concat (?sh[ind := b])]"
    by (simp add: set_bucket_def map_update)
  moreover have "mset (concat ((map concat st)[ex := concat (?sh[ind := b])]))
                   + mset (map concat st ! ex)
                 = mset (concat (map concat st)) + mset (concat (?sh[ind := b]))"
    using assms(1) by (intro mset_concat_update) simp
  ultimately have "mset (concat (map concat (set_bucket st ex ind b))) + mset (concat ?sh)
                 = mset (concat (map concat st)) + mset (concat (?sh[ind := b]))"
    using assms(1) by simp
  then have "mset (concat (map concat (set_bucket st ex ind b))) + mset (concat ?sh) + mset (?sh ! ind)
                 = mset (concat (map concat st)) + (mset (concat ?sh) + mset b)"
    using inner by (simp add: ac_simps)
  then show ?thesis by (simp add: ac_simps)
qed

lemma shape_set_bucket:
  "shape ct ss st \<Longrightarrow> shape ct ss (set_bucket st ex ind b)"
proof (cases "ex < length st")
  case True
  assume "shape ct ss st"
  with True show ?thesis
    unfolding shape_def set_bucket_def list_all_length by (simp add: nth_list_update)
next
  case False
  assume "shape ct ss st"
  with False show ?thesis unfolding set_bucket_def by (simp add: list_update_beyond)
qed

lemma shape_nth: "shape ct ss st \<Longrightarrow> ex < ct \<Longrightarrow> length (st ! ex) = ss"
  unfolding shape_def list_all_length by simp

lemma shape_length: "shape ct ss st \<Longrightarrow> length st = ct"
  unfolding shape_def by simp

lemma shape_replicate: "shape ct ss (replicate ct (replicate ss []))"
  unfolding shape_def list_all_iff by auto

lemma nth_set_bucket:
  "ex < length st \<Longrightarrow> ind < length (st ! ex) \<Longrightarrow> i < length st \<Longrightarrow> j < length (st ! i) \<Longrightarrow>
     set_bucket st ex ind b ! i ! j = (if i = ex \<and> j = ind then b else st ! i ! j)"
  unfolding set_bucket_def by (auto simp: nth_list_update)

lemma length_set_bucket: "length (set_bucket st ex ind b) = length st"
  unfolding set_bucket_def by simp

lemma length_nth_set_bucket:
  "i < length st \<Longrightarrow> length (set_bucket st ex ind b ! i) = length (st ! i)"
  unfolding set_bucket_def by (cases "i = ex") simp_all

lemma addressed_set_bucket:
  assumes "addressed h ct ss st" "ex < length st" "ind < length (st ! ex)"
    and "\<forall>e \<in> set b. h (fst e) mod ct = ex \<and> h (fst e) mod ss = ind"
  shows "addressed h ct ss (set_bucket st ex ind b)"
  unfolding addressed_def
proof (intro allI impI ballI)
  fix i j e
  assume i: "i < length (set_bucket st ex ind b)"
    and j: "j < length (set_bucket st ex ind b ! i)"
    and e: "e \<in> set (set_bucket st ex ind b ! i ! j)"
  from i have i': "i < length st" by (simp add: length_set_bucket)
  with j have j': "j < length (st ! i)" by (simp add: length_nth_set_bucket)
  show "h (fst e) mod ct = i \<and> h (fst e) mod ss = j"
  proof (cases "i = ex \<and> j = ind")
    case True
    with e i' j' assms(2,3) have "e \<in> set b" by (simp add: nth_set_bucket)
    with assms(4) True show ?thesis by simp
  next
    case False
    with e i' j' assms(2,3) have "e \<in> set (st ! i ! j)" by (simp add: nth_set_bucket)
    with assms(1) i' j' show ?thesis unfolding addressed_def by blast
  qed
qed

lemma addressed_replicate: "addressed h ct ss (replicate n (replicate k []))"
  unfolding addressed_def by simp

subsection \<open>The loops of Rehashing\<close>

lemma emplace_back_ok:
  assumes sh: "shape ct ss st" and ad: "addressed h ct ss st"
    and ct: "0 < ct" and ss: "0 < ss"
  shows "\<exists>st'. emplace_back st (h (fst e) mod ct) (h (fst e) mod ss) e = Inr st' \<and>
           shape ct ss st' \<and> addressed h ct ss st' \<and>
           mset (concat (map concat st')) = add_mset e (mset (concat (map concat st)))"
proof -
  define ex where "ex = h (fst e) mod ct"
  define ind where "ind = h (fst e) mod ss"
  have ex: "ex < length st" using sh ct by (simp add: shape_length ex_def)
  then have "length (st ! ex) = ss" using sh by (simp add: shape_nth shape_length)
  then have ind: "ind < length (st ! ex)" using ss by (simp add: ind_def)
  define b where "b = st ! ex ! ind"
  define st' where "st' = set_bucket st ex ind (b @ [e])"
  have 1: "emplace_back st ex ind e = Inr st'"
    using ex ind by (simp add: emplace_back_def bucket_at_def st'_def b_def)
  have 2: "shape ct ss st'" unfolding st'_def using sh by (rule shape_set_bucket)
  have "\<forall>x \<in> set b. h (fst x) mod ct = ex \<and> h (fst x) mod ss = ind"
    using ad ex ind unfolding addressed_def b_def by blast
  then have "\<forall>x \<in> set (b @ [e]). h (fst x) mod ct = ex \<and> h (fst x) mod ss = ind"
    by (simp add: ex_def ind_def)
  with ad ex ind have 3: "addressed h ct ss st'" unfolding st'_def by (intro addressed_set_bucket)
  have "mset (concat (map concat st')) + mset b = mset (concat (map concat st)) + mset (b @ [e])"
    unfolding st'_def b_def using ex ind by (rule mset_entries_set_bucket)
  then have 4: "mset (concat (map concat st')) = add_mset e (mset (concat (map concat st)))"
    by simp
  show ?thesis
    using 1 2 3 4 unfolding ex_def ind_def by (intro exI [of _ st']) simp
qed

lemma rehash_entries_ok:
  assumes "shape ct ss st" "addressed h ct ss st" "0 < ct" "0 < ss"
  shows "\<exists>st'. rehash_entries h ct ss es st = Inr st' \<and>
           shape ct ss st' \<and> addressed h ct ss st' \<and>
           mset (concat (map concat st')) = mset (concat (map concat st)) + mset es"
  using assms
proof (induction es arbitrary: st)
  case Nil
  then show ?case by simp
next
  case (Cons e es)
  from emplace_back_ok [OF Cons.prems, of e] obtain st1 where
    1: "emplace_back st (h (fst e) mod ct) (h (fst e) mod ss) e = Inr st1"
    and 2: "shape ct ss st1" "addressed h ct ss st1"
    and 3: "mset (concat (map concat st1)) = add_mset e (mset (concat (map concat st)))"
    by blast
  from Cons.IH [OF 2 Cons.prems(3,4)] obtain st' where
    4: "rehash_entries h ct ss es st1 = Inr st'" "shape ct ss st'" "addressed h ct ss st'"
    and 5: "mset (concat (map concat st')) = mset (concat (map concat st1)) + mset es"
    by blast
  have "rehash_entries h ct ss (e # es) st = Inr st'"
    using Cons.prems(3,4) 1 4(1) by (simp add: GetHash_def)
  with 3 4 5 show ?case by simp
qed

lemma rehash_entries_append:
  "rehash_entries h ct ss (xs @ ys) st =
     (case rehash_entries h ct ss xs st of Inl err \<Rightarrow> Inl err
      | Inr st' \<Rightarrow> rehash_entries h ct ss ys st')"
proof (induction xs arbitrary: st)
  case Nil
  show ?case by simp
next
  case (Cons e xs)
  show ?case
  proof (cases "GetHash h (fst e) ct")
    case Inl
    then show ?thesis by simp
  next
    case ex: (Inr a)
    show ?thesis
    proof (cases "GetHash h (fst e) ss")
      case Inl
      with ex show ?thesis by simp
    next
      case ind: (Inr b)
      show ?thesis
        by (cases "emplace_back st a b e") (simp_all only: append_Cons rehash_entries.simps ex ind sum.case Cons.IH)
    qed
  qed
qed

lemma rehash_buckets_entries:
  "ex < length old \<Longrightarrow> \<forall>i \<in> set is. i < length (old ! ex) \<Longrightarrow>
     rehash_buckets h ct ss old ex is st =
     rehash_entries h ct ss (concat (map (\<lambda>i. old ! ex ! i) is)) st"
proof (induction "is" arbitrary: st)
  case Nil
  show ?case by simp
next
  case (Cons i rest)
  then have b: "bucket_at old ex i = Inr (old ! ex ! i)" by (simp add: bucket_at_def)
  have rest: "\<forall>i \<in> set rest. i < length (old ! ex)" using Cons.prems by simp
  note IH = Cons.IH [OF Cons.prems(1) rest]
  show ?case
    by (cases "rehash_entries h ct ss (old ! ex ! i) st")
       (simp_all only: rehash_buckets.simps b sum.case list.map concat.simps
          rehash_entries_append IH)
qed

lemma map_nth_fun: "map (\<lambda>i. f (xs ! i)) [0..<length xs] = map f xs"
  by (rule nth_equalityI) auto

lemma rehash_shards_entries:
  "\<forall>ex \<in> set exs. ex < length old \<and> length (old ! ex) = ss \<Longrightarrow>
     rehash_shards h ct ss new_ss old exs st =
     rehash_entries h ct new_ss (concat (map (\<lambda>ex. concat (old ! ex)) exs)) st"
proof (induction exs arbitrary: st)
  case Nil
  show ?case by simp
next
  case (Cons ex exs)
  from Cons.prems have ex: "ex < length old" and len: "length (old ! ex) = ss" by simp_all
  from Cons.prems have rest: "\<forall>ex \<in> set exs. ex < length old \<and> length (old ! ex) = ss"
    by simp
  note IH = Cons.IH [OF rest]
  have "\<forall>i \<in> set [0..<ss]. i < length (old ! ex)" using len by simp
  then have "rehash_buckets h ct new_ss old ex [0..<ss] st =
          rehash_entries h ct new_ss (concat (map (\<lambda>i. old ! ex ! i) [0..<ss])) st"
    using ex by (intro rehash_buckets_entries)
  moreover have "map (\<lambda>i. old ! ex ! i) [0..<ss] = old ! ex"
    using len map_nth [of "old ! ex"] by simp
  ultimately have b: "rehash_buckets h ct new_ss old ex [0..<ss] st =
          rehash_entries h ct new_ss (concat (old ! ex)) st" by simp
  show ?case
    by (cases "rehash_entries h ct new_ss (concat (old ! ex)) st")
       (simp_all only: rehash_shards.simps b sum.case list.map concat.simps
          rehash_entries_append IH)
qed

lemma rehash_shards_all:
  assumes "shape ct ss old"
  shows "rehash_shards h ct ss new_ss old [0..<ct] st =
           rehash_entries h ct new_ss (concat (map concat old)) st"
proof -
  have "rehash_shards h ct ss new_ss old [0..<ct] st =
          rehash_entries h ct new_ss (concat (map (\<lambda>ex. concat (old ! ex)) [0..<ct])) st"
    using assms by (intro rehash_shards_entries) (auto simp: shape_length shape_nth)
  moreover have "map (\<lambda>ex. concat (old ! ex)) [0..<ct] = map concat old"
    using map_nth_fun [of concat old] assms by (simp add: shape_length)
  ultimately show ?thesis by simp
qed

subsection \<open>Integer conversions and rounding up\<close>

lemma sint_int_of_size_t: "n < 2 ^ 31 \<Longrightarrow> sint (int_of_size_t n) = int n"
  unfolding int_of_size_t_def
  by (simp add: signed_of_nat signed_take_bit_int_eq_self)

lemma size_t_of_int_nonneg: "0 \<le> sint i \<Longrightarrow> size_t_of_int i = nat (sint i)"
proof -
  assume a: "0 \<le> sint i"
  have "sint i < 2 ^ 31" using sint_lt [of i] by simp
  then have "sint i < 2 ^ 64" by simp
  with a show ?thesis unfolding size_t_of_int_def by simp
qed

lemma size_t_of_int_less: "0 \<le> sint i \<Longrightarrow> size_t_of_int i < 2 ^ 31"
proof -
  assume a: "0 \<le> sint i"
  have "sint i < 2 ^ 31" using sint_lt [of i] by simp
  with a show ?thesis by (simp add: size_t_of_int_nonneg)
qed

lemma size_t_round_trip: "n < 2 ^ 31 \<Longrightarrow> size_t_of_int (int_of_size_t n) = n"
  by (simp add: size_t_of_int_nonneg sint_int_of_size_t)

lemma sub_sz_one: "0 < x \<Longrightarrow> x < 2 ^ 64 \<Longrightarrow> sub_sz x 1 = x - 1"
proof -
  assume a: "0 < x" "x < 2 ^ 64"
  have "x + (2 ^ 64 - 1) = (x - 1) + 1 * 2 ^ 64" using a by simp
  then have "(x + (2 ^ 64 - 1)) mod 2 ^ 64 = (x - 1) mod 2 ^ 64"
    by (metis mod_mult_self1)
  then show ?thesis using a by (simp add: sub_sz_def)
qed

lemma round_up_div:
  assumes "0 < ct" "a + ct < 2 ^ 64"
  shows "sub_sz (add_sz a ct) 1 div ct = (a + ct - 1) div ct"
proof -
  have 1: "add_sz a ct = a + ct" using assms by (simp add: add_sz_def)
  have 2: "sub_sz (a + ct) 1 = a + ct - 1" using assms by (intro sub_sz_one) auto
  from 1 2 show ?thesis by simp
qed

lemma round_up_div_mult:
  assumes "0 < ct" "n * ct + ct < 2 ^ 64"
  shows "sub_sz (add_sz (n * ct) ct) 1 div ct = n"
proof -
  have "(n * ct + ct - 1) div ct = n"
    using assms(1) by (intro div_nat_eqI) (auto simp: algebra_simps)
  with round_up_div [OF assms] show ?thesis by simp
qed

lemma round_up_div_ceiling:
  assumes "0 < ct"
  shows "(a + ct - 1) div ct = ceiling_div a ct"
proof -
  define q where "q = a div ct"
  define r where "r = a mod ct"
  have a: "a = q * ct + r" and r: "r < ct"
    using assms by (simp_all add: q_def r_def)
  have c: "ceiling_div a ct = (if r = 0 then q else q + 1)"
    by (simp add: ceiling_div_def q_def r_def)
  show ?thesis
  proof (cases "r = 0")
    case True
    have "(q * ct + ct - 1) div ct = q"
      using assms by (intro div_nat_eqI) (auto simp: algebra_simps)
    moreover have "a + ct - 1 = q * ct + ct - 1" using a True by simp
    ultimately show ?thesis using True c by simp
  next
    case False
    have "(q * ct + r + ct - 1) div ct = q + 1"
      using assms r False by (intro div_nat_eqI) (auto simp: algebra_simps)
    moreover have "a + ct - 1 = q * ct + r + ct - 1" using a by simp
    ultimately show ?thesis using False c by simp
  qed
qed

subsection \<open>Rehashing on a well-formed object\<close>

lemma wf_D:
  assumes "wf hw m"
  shows "0 < count_threads m" "count_threads m \<le> size_t_of_int hw" "count_threads m < 2 ^ 31"
    "29 \<le> storage_size m" "shape (count_threads m) (storage_size m) (storage m)"
    "addressed (hash_function m) (count_threads m) (storage_size m) (storage m)"
    "unique_keys m" "size_m m = length (entries m) mod 2 ^ 64"
  using assms unfolding wf_def kDefaultSize_def by simp_all

lemma nested_ctor_threads:
  assumes "wf hw m"
  shows "min (size_t_of_int hw) (size_t_of_int (int_of_size_t (count_threads m))) = count_threads m"
  using wf_D(2,3) [OF assms] by (simp add: size_t_round_trip)

lemma nested_ctor_fits:
  fixes m :: "('k, 'v) ConcurrentHashMap"
  assumes "wf hw m" "rehash_fits m"
  shows "ConcurrentHashMap_sized_threads hw
             (int_of_size_t (mul_sz (mul_sz (storage_size m) (count_threads m)) 3))
             (int_of_size_t (count_threads m)) (hash_function m)
           = Inr \<lparr>count_threads = count_threads m, storage_size = 3 * storage_size m, size_m = 0,
                  hash_function = hash_function m,
                  storage = replicate (count_threads m) (replicate (3 * storage_size m) ([] :: ('k, 'v) bucket))\<rparr>"
    and "sub_sz (add_sz (mul_sz (mul_sz (storage_size m) (count_threads m)) 3) (count_threads m)) 1
           div count_threads m = 3 * storage_size m"
proof -
  define ct where "ct = count_threads m"
  define ss where "ss = storage_size m"
  have ct: "0 < ct" "ct < 2 ^ 31" and ss: "29 \<le> ss"
    using wf_D [OF assms(1)] by (simp_all add: ct_def ss_def)
  have fits: "ss * ct * 3 < 2 ^ 31" using assms(2) by (simp add: rehash_fits_def ct_def ss_def)
  then have "ss * ct < 2 ^ 31" by simp
  then have "ss * ct < 2 ^ 64" by (rule less_trans) simp
  moreover from fits have "ss * ct * 3 < 2 ^ 64" by (rule less_trans) simp
  ultimately have E: "mul_sz (mul_sz ss ct) 3 = 3 * ss * ct"
    by (simp add: mul_sz_def ac_simps)
  have E31: "3 * ss * ct < 2 ^ 31" using fits by (simp add: ac_simps)
  have "3 * ss * ct + ct < 2 ^ 31 + 2 ^ 31" using E31 ct(2) by (rule add_strict_mono)
  then have lt: "3 * ss * ct + ct < 2 ^ 64" by (rule less_trans) simp
  have rt: "size_t_of_int (int_of_size_t (3 * ss * ct)) = 3 * ss * ct"
    using E31 by (rule size_t_round_trip)
  have up: "sub_sz (add_sz (3 * ss * ct) ct) 1 div ct = 3 * ss"
    using ct(1) lt by (rule round_up_div_mult)
  have mx: "max kDefaultSize (3 * ss) = 3 * ss" using ss by (simp add: kDefaultSize_def)
  have "3 * ss \<le> 3 * ss * ct" using ct(1) by simp
  then have "3 * ss < 2 ^ 31" using E31 by (rule le_less_trans)
  then have len: "\<not> max_size < 3 * ss" by (simp add: max_size_def)
  have thr: "min (size_t_of_int hw) (size_t_of_int (int_of_size_t ct)) = ct"
    unfolding ct_def by (rule nested_ctor_threads [OF assms(1)])
  show "ConcurrentHashMap_sized_threads hw
             (int_of_size_t (mul_sz (mul_sz (storage_size m) (count_threads m)) 3))
             (int_of_size_t (count_threads m)) (hash_function m)
           = Inr \<lparr>count_threads = count_threads m, storage_size = 3 * storage_size m, size_m = 0,
                  hash_function = hash_function m,
                  storage = replicate (count_threads m) (replicate (3 * storage_size m) ([] :: ('k, 'v) bucket))\<rparr>"
    unfolding ct_def [symmetric] ss_def [symmetric] ConcurrentHashMap_sized_threads_def
    using ct(1) by (simp only: E rt up mx thr len Let_def) simp
  show "sub_sz (add_sz (mul_sz (mul_sz (storage_size m) (count_threads m)) 3) (count_threads m)) 1
           div count_threads m = 3 * storage_size m"
    unfolding ct_def [symmetric] ss_def [symmetric] by (simp only: E up)
qed

lemma Rehashing_run:
  fixes m :: "('k, 'v) ConcurrentHashMap"
  assumes "wf hw m" "rehash_fits m"
  shows "\<exists>new. shape (count_threads m) (3 * storage_size m) new \<and>
           addressed (hash_function m) (count_threads m) (3 * storage_size m) new \<and>
           mset (concat (map concat new)) = mset (entries m) \<and>
           Rehashing hw m =
             Inr (m\<lparr>storage := new,
                    storage_size :=
                      sub_sz (add_sz (mul_sz (mul_sz (storage_size m) (count_threads m)) 3)
                                (count_threads m)) 1 div count_threads m\<rparr>)"
proof -
  define ct where "ct = count_threads m"
  define h where "h = hash_function m"
  define ssn where "ssn = 3 * storage_size m"
  have ssn: "kDefaultSize \<le> ssn"
    using wf_D(4) [OF assms(1)] by (simp add: ssn_def kDefaultSize_def)
  have ctor: "ConcurrentHashMap_sized_threads hw
             (int_of_size_t (mul_sz (mul_sz (storage_size m) (count_threads m)) 3))
             (int_of_size_t (count_threads m)) (hash_function m)
           = Inr \<lparr>count_threads = count_threads m, storage_size = ssn, size_m = 0,
                  hash_function = hash_function m,
                  storage = replicate (count_threads m) (replicate ssn ([] :: ('k, 'v) bucket))\<rparr>"
    unfolding ssn_def by (rule nested_ctor_fits(1) [OF assms])
  have ct: "0 < ct" using wf_D(1) [OF assms(1)] by (simp add: ct_def)
  have ssn_pos: "0 < ssn" using ssn by (simp add: kDefaultSize_def)
  have "shape ct ssn (replicate ct (replicate ssn []))" by (rule shape_replicate)
  moreover have "addressed h ct ssn (replicate ct (replicate ssn []))"
    by (rule addressed_replicate)
  ultimately obtain new where
    run: "rehash_entries h ct ssn (entries m) (replicate ct (replicate ssn [])) = Inr new"
    and new: "shape ct ssn new" "addressed h ct ssn new"
    and ms: "mset (concat (map concat new)) =
               mset (concat (map concat (replicate ct (replicate ssn [])))) + mset (entries m)"
    using rehash_entries_ok [OF _ _ ct ssn_pos, of "replicate ct (replicate ssn [])" h "entries m"]
    by blast
  have ms': "mset (concat (map concat new)) = mset (entries m)" using ms by simp
  have "rehash_shards h ct (storage_size m) ssn (storage m) [0..<ct] (replicate ct (replicate ssn []))
          = rehash_entries h ct ssn (concat (map concat (storage m))) (replicate ct (replicate ssn []))"
    unfolding ct_def by (rule rehash_shards_all [OF wf_D(5) [OF assms(1)]])
  with run have loops: "rehash_shards h ct (storage_size m) ssn (storage m) [0..<ct]
                          (replicate ct (replicate ssn [])) = Inr new"
    by (simp add: entries_def)
  have "Rehashing hw m =
             Inr (m\<lparr>storage := new,
                    storage_size :=
                      sub_sz (add_sz (mul_sz (mul_sz (storage_size m) (count_threads m)) 3)
                                (count_threads m)) 1 div count_threads m\<rparr>)"
    unfolding Rehashing_def Let_def
    using ct loops by (simp only: ctor sum.case) (simp add: ct_def h_def)
  with new ms' show ?thesis
    unfolding ct_def h_def ssn_def
    by (intro exI [of _ new]) simp
qed

subsection \<open>Lookups on a well-formed object\<close>

lemma unique_keys_mset:
  "mset (entries m') = mset (entries m) \<Longrightarrow> unique_keys m' = unique_keys m"
proof -
  assume "mset (entries m') = mset (entries m)"
  then have "mset (map fst (entries m')) = mset (map fst (entries m))" by simp
  then show ?thesis unfolding unique_keys_def by (rule mset_eq_imp_distinct_iff)
qed

lemma Rehashing_wf:
  fixes m :: "('k, 'v) ConcurrentHashMap"
  assumes "wf hw m" "rehash_fits m"
  shows "\<exists>m'. Rehashing hw m = Inr m' \<and> wf hw m' \<and> mset (entries m') = mset (entries m) \<and>
           storage_size m' = 3 * storage_size m \<and> count_threads m' = count_threads m \<and>
           size_m m' = size_m m \<and> hash_function m' = hash_function m \<and>
           shape (count_threads m) (3 * storage_size m) (storage m')"
proof -
  from Rehashing_run [OF assms] obtain new where
    new: "shape (count_threads m) (3 * storage_size m) new"
      "addressed (hash_function m) (count_threads m) (3 * storage_size m) new"
    and ms: "mset (concat (map concat new)) = mset (entries m)"
    and run: "Rehashing hw m =
             Inr (m\<lparr>storage := new,
                    storage_size :=
                      sub_sz (add_sz (mul_sz (mul_sz (storage_size m) (count_threads m)) 3)
                                (count_threads m)) 1 div count_threads m\<rparr>)"
    by blast
  define m' where "m' = m\<lparr>storage := new, storage_size := 3 * storage_size m\<rparr>"
  have run': "Rehashing hw m = Inr m'"
    using run nested_ctor_fits(2) [OF assms] by (simp add: m'_def)
  have ent: "mset (entries m') = mset (entries m)" using ms by (simp add: m'_def entries_def)
  then have "length (entries m') = length (entries m)" by (rule mset_eq_length)
  moreover have "unique_keys m'" using unique_keys_mset [OF ent] wf_D(7) [OF assms(1)] by simp
  ultimately have "wf hw m'"
    using wf_D [OF assms(1)] new
    unfolding wf_def kDefaultSize_def by (simp add: m'_def)
  with run' ent new(1) show ?thesis by (intro exI [of _ m']) (simp add: m'_def)
qed

lemma Rehashing_total:
  fixes m :: "('k, 'v) ConcurrentHashMap"
  assumes "wf hw m" "rehash_fits m"
  shows "\<exists>m'. Rehashing hw m = Inr m'"
  using Rehashing_run [OF assms] by blast

lemma addresses:
  assumes "wf hw m"
  shows "GetHash (hash_function m) k (count_threads m) = Inr (hash_function m k mod count_threads m)"
    and "GetHash (hash_function m) k (storage_size m) = Inr (hash_function m k mod storage_size m)"
    and "hash_function m k mod count_threads m < length (storage m)"
    and "hash_function m k mod storage_size m
           < length (storage m ! (hash_function m k mod count_threads m))"
    and "bucket_at (storage m) (hash_function m k mod count_threads m)
           (hash_function m k mod storage_size m) = Inr (bucket_of m k)"
proof -
  have ct: "0 < count_threads m" and ss: "0 < storage_size m"
    using wf_D(1,4) [OF assms] by simp_all
  show 1: "GetHash (hash_function m) k (count_threads m) = Inr (hash_function m k mod count_threads m)"
    using ct by (simp add: GetHash_def)
  show 2: "GetHash (hash_function m) k (storage_size m) = Inr (hash_function m k mod storage_size m)"
    using ss by (simp add: GetHash_def)
  show 3: "hash_function m k mod count_threads m < length (storage m)"
    using ct wf_D(5) [OF assms] by (simp add: shape_length)
  have "length (storage m ! (hash_function m k mod count_threads m)) = storage_size m"
    using ct by (intro shape_nth [OF wf_D(5) [OF assms]]) simp
  then show 4: "hash_function m k mod storage_size m
           < length (storage m ! (hash_function m k mod count_threads m))"
    using ss by simp
  from 3 4 show "bucket_at (storage m) (hash_function m k mod count_threads m)
           (hash_function m k mod storage_size m) = Inr (bucket_of m k)"
    by (simp add: bucket_at_def bucket_of_def)
qed

lemma set_entries:
  "set (entries m) = (\<Union>sh \<in> set (storage m). \<Union>b \<in> set sh. set b)"
  unfolding entries_def by auto

lemma bucket_of_subset:
  assumes "wf hw m"
  shows "set (bucket_of m k) \<subseteq> set (entries m)"
proof -
  have "storage m ! (hash_function m k mod count_threads m) \<in> set (storage m)"
    using addresses(3) [OF assms] by (rule nth_mem)
  moreover have "bucket_of m k \<in> set (storage m ! (hash_function m k mod count_threads m))"
    unfolding bucket_of_def using addresses(4) [OF assms] by (rule nth_mem)
  ultimately show ?thesis unfolding set_entries by blast
qed

lemma entry_in_bucket_of:
  assumes "wf hw m" "e \<in> set (entries m)"
  shows "e \<in> set (bucket_of m (fst e))"
proof -
  from assms(2) obtain sh b where sh: "sh \<in> set (storage m)" and b: "b \<in> set sh" and e: "e \<in> set b"
    unfolding set_entries by blast
  from sh obtain ex where ex: "ex < length (storage m)" "sh = storage m ! ex"
    by (auto simp: in_set_conv_nth)
  from b ex obtain ind where ind: "ind < length (storage m ! ex)" "b = storage m ! ex ! ind"
    by (auto simp: in_set_conv_nth)
  from wf_D(6) [OF assms(1)] ex(1) ind e
  have "hash_function m (fst e) mod count_threads m = ex \<and>
        hash_function m (fst e) mod storage_size m = ind"
    unfolding addressed_def by blast
  with e ind(2) show ?thesis by (simp add: bucket_of_def)
qed

lemma key_in_bucket_of:
  assumes "wf hw m"
  shows "k \<in> fst ` set (bucket_of m k) \<longleftrightarrow> k \<in> keys m"
proof
  assume "k \<in> fst ` set (bucket_of m k)"
  then show "k \<in> keys m" using bucket_of_subset [OF assms, of k] unfolding keys_def by blast
next
  assume "k \<in> keys m"
  then obtain e where e: "e \<in> set (entries m)" "fst e = k" unfolding keys_def by blast
  from entry_in_bucket_of [OF assms e(1)] e(2) show "k \<in> fst ` set (bucket_of m k)" by force
qed

lemma key_index_lookup:
  assumes "wf hw m"
  shows "(case key_index k (bucket_of m k) of None \<Rightarrow> None | Some i \<Rightarrow> Some (snd (bucket_of m k ! i)))
           = map_of (entries m) k"
proof (cases "key_index k (bucket_of m k)")
  case None
  then have "k \<notin> keys m" using key_in_bucket_of [OF assms, of k] by (simp add: key_index_None)
  then have "map_of (entries m) k = None" by (simp add: map_of_eq_None_iff keys_def)
  with None show ?thesis by simp
next
  case (Some i)
  from key_index_Some [OF Some] have i: "i < length (bucket_of m k)" "fst (bucket_of m k ! i) = k"
    by simp_all
  then have "bucket_of m k ! i \<in> set (bucket_of m k)" by simp
  then have "bucket_of m k ! i \<in> set (entries m)" using bucket_of_subset [OF assms] by blast
  moreover have "bucket_of m k ! i = (k, snd (bucket_of m k ! i))" using i(2) by (simp add: prod_eq_iff)
  ultimately have "(k, snd (bucket_of m k ! i)) \<in> set (entries m)" by simp
  then have "map_of (entries m) k = Some (snd (bucket_of m k ! i))"
    using wf_D(7) [OF assms] unfolding unique_keys_def by simp
  with Some show ?thesis by simp
qed

lemma Find_wf:
  assumes "wf hw m"
  shows "Find m dflt k =
           Inr (case map_of (entries m) k of None \<Rightarrow> (False, dflt) | Some v \<Rightarrow> (True, v))"
  unfolding Find_def key_index_lookup [OF assms, of k, symmetric]
  by (simp only: addresses [OF assms] sum.case split: option.split) simp

lemma At_wf:
  assumes "wf hw m"
  shows "At m k = (case map_of (entries m) k of None \<Rightarrow> Inl OutOfRange | Some v \<Rightarrow> Inr v)"
  unfolding At_def key_index_lookup [OF assms, of k, symmetric]
  by (simp only: addresses [OF assms] sum.case split: option.split) simp

lemma map_of_mset:
  assumes "mset xs = mset ys" "distinct (map fst xs)"
  shows "map_of xs = map_of ys"
proof -
  have d: "distinct (map fst ys)"
  proof -
    have "mset (map fst xs) = mset (map fst ys)" using assms(1) by simp
    from mset_eq_imp_distinct_iff [OF this] assms(2) show ?thesis by simp
  qed
  have "set xs = set ys" using assms(1) by (rule mset_eq_setD)
  with assms(2) d show ?thesis by (intro map_of_inject_set [THEN iffD2])
qed

subsection \<open>Insert on a well-formed object\<close>

lemma add_sz_mod: "add_sz (n mod 2 ^ 64) 1 = (n + 1) mod 2 ^ 64"
  unfolding add_sz_def by (simp add: mod_Suc_eq)

lemma sub_sz_mod: "0 < n \<Longrightarrow> sub_sz (n mod 2 ^ 64) 1 = (n - 1) mod 2 ^ 64"
proof -
  assume "0 < n"
  then have "n + (2 ^ 64 - 1) = (n - 1) + 1 * 2 ^ 64" by simp
  then have "(n + (2 ^ 64 - 1)) mod 2 ^ 64 = (n - 1) mod 2 ^ 64"
    by (metis mod_mult_self1)
  moreover have "sub_sz (n mod 2 ^ 64) 1 = (n + (2 ^ 64 - 1)) mod 2 ^ 64"
    unfolding sub_sz_def by (simp add: mod_add_left_eq)
  ultimately show ?thesis by simp
qed

lemma entries_set_bucket:
  assumes "wf hw m"
  shows "mset (concat (map concat (set_bucket (storage m) (hash_function m k mod count_threads m)
                 (hash_function m k mod storage_size m) b))) + mset (bucket_of m k)
           = mset (entries m) + mset b"
  unfolding entries_def bucket_of_def
  using addresses(3,4) [OF assms] by (rule mset_entries_set_bucket)

lemma appended_wf:
  assumes "wf hw m" "k \<notin> keys m"
  shows "wf hw (appended m k v)"
    and "mset (entries (appended m k v)) = add_mset (k, v) (mset (entries m))"
proof -
  define ex where "ex = hash_function m k mod count_threads m"
  define ind where "ind = hash_function m k mod storage_size m"
  define b where "b = bucket_of m k"
  define m1 where "m1 = appended m k v"
  have m1: "m1 = m\<lparr>size_m := add_sz (size_m m) 1,
                    storage := set_bucket (storage m) ex ind (b @ [(k, v)])\<rparr>"
    by (simp add: m1_def appended_def ex_def ind_def b_def)
  have "mset (concat (map concat (set_bucket (storage m) ex ind (b @ [(k, v)])))) + mset b
          = mset (entries m) + mset (b @ [(k, v)])"
    unfolding ex_def ind_def b_def by (rule entries_set_bucket [OF assms(1)])
  then have ent: "mset (entries m1) = add_mset (k, v) (mset (entries m))"
    by (simp add: m1 entries_def)
  then have "mset (entries m1) = mset ((k, v) # entries m)" by simp
  then have "mset (map fst (entries m1)) = mset (map fst ((k, v) # entries m))"
    by (simp only: mset_map)
  from mset_eq_imp_distinct_iff [OF this] have uq: "unique_keys m1"
    using wf_D(7) [OF assms(1)] assms(2) by (simp add: unique_keys_def keys_def)
  have "length (entries m1) = length ((k, v) # entries m)"
    using ent by (intro mset_eq_length) simp
  then have len: "length (entries m1) = length (entries m) + 1" by simp
  have "size_m m1 = add_sz (size_m m) 1" by (simp add: m1)
  then have sz: "size_m m1 = length (entries m1) mod 2 ^ 64"
    by (simp only: wf_D(8) [OF assms(1)] add_sz_mod len)
  have sh: "shape (count_threads m1) (storage_size m1) (storage m1)"
    using wf_D(5) [OF assms(1)] by (simp add: m1 shape_set_bucket)
  have "\<forall>e \<in> set b. hash_function m (fst e) mod count_threads m = ex \<and>
                      hash_function m (fst e) mod storage_size m = ind"
    using wf_D(6) [OF assms(1)] addresses(3,4) [OF assms(1), of k]
    unfolding addressed_def b_def bucket_of_def ex_def ind_def by blast
  then have "\<forall>e \<in> set (b @ [(k, v)]). hash_function m (fst e) mod count_threads m = ex \<and>
                      hash_function m (fst e) mod storage_size m = ind"
    by (simp add: ex_def ind_def)
  then have "addressed (hash_function m) (count_threads m) (storage_size m)
               (set_bucket (storage m) ex ind (b @ [(k, v)]))"
    using wf_D(6) [OF assms(1)] addresses(3,4) [OF assms(1), of k]
    unfolding ex_def ind_def by (intro addressed_set_bucket)
  then have ad: "addressed (hash_function m1) (count_threads m1) (storage_size m1) (storage m1)"
    by (simp add: m1)
  show "wf hw (appended m k v)"
    unfolding m1_def [symmetric] wf_def
    using wf_D(1-4) [OF assms(1)] sh ad uq sz by (simp add: m1 kDefaultSize_def)
  show "mset (entries (appended m k v)) = add_mset (k, v) (mset (entries m))"
    using ent by (simp add: m1_def)
qed

lemma appended_fields:
  "count_threads (appended m k v) = count_threads m"
  "storage_size (appended m k v) = storage_size m"
  "hash_function (appended m k v) = hash_function m"
  "size_m (appended m k v) = add_sz (size_m m) 1"
  "rehash_fits (appended m k v) = rehash_fits m"
  by (simp_all add: appended_def rehash_fits_def)

lemma Insert_unfold:
  assumes "wf hw m"
  shows "Insert hw m k v =
           (if k \<in> keys m then Inr (False, m)
            else if length (bucket_of m k @ [(k, v)]) < kLimitCollisions
                 then Inr (True, appended m k v)
                 else (case Rehashing hw (appended m k v) of
                         Inl err \<Rightarrow> Inl err | Inr m2 \<Rightarrow> Inr (True, m2)))"
proof (cases "key_index k (bucket_of m k)")
  case None
  then have "k \<notin> keys m" using key_in_bucket_of [OF assms, of k] by (simp add: key_index_None)
  then show ?thesis
    unfolding Insert_def
    by (simp only: addresses [OF assms] sum.case None option.case Let_def appended_def if_False)
next
  case (Some i)
  then have "key_index k (bucket_of m k) \<noteq> None" by simp
  then have "k \<in> keys m" using key_in_bucket_of [OF assms, of k] by (simp add: key_index_None)
  then show ?thesis
    unfolding Insert_def
    by (simp only: addresses [OF assms] sum.case Some option.case if_True)
qed

lemma Insert_present:
  "wf hw m \<Longrightarrow> k \<in> keys m \<Longrightarrow> Insert hw m k v = Inr (False, m)"
  by (simp add: Insert_unfold)

lemma Insert_absent:
  fixes m :: "('k, 'v) ConcurrentHashMap"
  assumes "wf hw m" "rehash_fits m" "k \<notin> keys m"
  shows "\<exists>m'. Insert hw m k v = Inr (True, m') \<and> wf hw m' \<and>
           mset (entries m') = add_mset (k, v) (mset (entries m)) \<and>
           size_m m' = add_sz (size_m m) 1 \<and> count_threads m' = count_threads m \<and>
           hash_function m' = hash_function m"
proof (cases "length (bucket_of m k @ [(k, v)]) < kLimitCollisions")
  case True
  then have "Insert hw m k v = Inr (True, appended m k v)"
    using assms by (simp add: Insert_unfold)
  with appended_wf [OF assms(1,3), of v] show ?thesis by (simp add: appended_fields)
next
  case False
  have "rehash_fits (appended m k v)" using assms(2) by (simp add: appended_fields)
  from Rehashing_wf [OF appended_wf(1) [OF assms(1,3)] this] obtain m2 where
    m2: "Rehashing hw (appended m k v) = Inr m2" "wf hw m2"
      "mset (entries m2) = mset (entries (appended m k v))"
      "count_threads m2 = count_threads (appended m k v)"
      "size_m m2 = size_m (appended m k v)" "hash_function m2 = hash_function (appended m k v)"
    by blast
  from False m2(1) have "Insert hw m k v = Inr (True, m2)"
    using assms by (simp add: Insert_unfold)
  with m2 appended_wf(2) [OF assms(1,3), of v] show ?thesis by (simp add: appended_fields)
qed

lemma Insert_absent_total:
  fixes m :: "('k, 'v) ConcurrentHashMap"
  assumes "wf hw m" "rehash_fits m" "k \<notin> keys m"
  shows "\<exists>m'. Insert hw m k v = Inr (True, m')"
  using Insert_absent [OF assms, of v] by blast

subsection \<open>Erase, Clear and the fresh object\<close>

lemma Erase_absent:
  assumes "wf hw m" "k \<notin> keys m"
  shows "Erase m k = Inr (False, m)"
proof -
  have "key_index k (bucket_of m k) = None"
    using assms(2) key_in_bucket_of [OF assms(1), of k] by (simp add: key_index_None)
  then show ?thesis
    unfolding Erase_def by (simp only: addresses [OF assms(1)] sum.case option.case)
qed

lemma Erase_present:
  fixes m :: "('k, 'v) ConcurrentHashMap"
  assumes "wf hw m" "k \<in> keys m"
  shows "\<exists>m' v. Erase m k = Inr (True, m') \<and> wf hw m' \<and> (k, v) \<in> set (entries m) \<and>
           mset (entries m') = mset (entries m) - {#(k, v)#} \<and>
           size_m m' = sub_sz (size_m m) 1 \<and> count_threads m' = count_threads m \<and>
           storage_size m' = storage_size m \<and> hash_function m' = hash_function m"
proof -
  define ex where "ex = hash_function m k mod count_threads m"
  define ind where "ind = hash_function m k mod storage_size m"
  define b where "b = bucket_of m k"
  have "key_index k b \<noteq> None"
    using assms(2) key_in_bucket_of [OF assms(1), of k] by (simp add: key_index_None b_def)
  then obtain i where i: "key_index k b = Some i" by blast
  from key_index_Some [OF i] have ib: "i < length b" and ik: "fst (b ! i) = k" by simp_all
  define v where "v = snd (b ! i)"
  have bi: "b ! i = (k, v)" using ik by (simp add: v_def prod_eq_iff)
  have inb: "(k, v) \<in> set b" using ib bi by (metis nth_mem)
  then have ine: "(k, v) \<in> set (entries m)"
    using bucket_of_subset [OF assms(1), of k] by (auto simp: b_def)
  define b' where "b' = butlast (b[i := last b])"
  define m' where "m' = m\<lparr>size_m := sub_sz (size_m m) 1,
                           storage := set_bucket (storage m) ex ind b'\<rparr>"
  have run: "Erase m k = Inr (True, m')"
    unfolding Erase_def
    by (simp only: addresses [OF assms(1)] sum.case i [unfolded b_def] option.case
          m'_def b'_def b_def ex_def ind_def)
  have mb: "mset b' = mset b - {#(k, v)#}"
    unfolding b'_def using mset_swap_pop [OF ib] by (simp add: bi)
  have "mset (concat (map concat (set_bucket (storage m) ex ind b'))) + mset b
          = mset (entries m) + mset b'"
    unfolding ex_def ind_def b_def by (rule entries_set_bucket [OF assms(1)])
  then have "mset (entries m') + mset b = mset (entries m) + (mset b - {#(k, v)#})"
    by (simp add: m'_def entries_def mb)
  moreover have "mset b = add_mset (k, v) (mset b - {#(k, v)#})" using inb by simp
  ultimately have "mset (entries m') + add_mset (k, v) (mset b - {#(k, v)#})
                     = mset (entries m) + (mset b - {#(k, v)#})" by simp
  then have readd: "add_mset (k, v) (mset (entries m')) = mset (entries m)" by simp
  then have ent: "mset (entries m') = mset (entries m) - {#(k, v)#}"
    by (metis add_mset_remove_trivial)
  from readd have "mset ((k, v) # entries m') = mset (entries m)" by simp
  then have "mset (map fst ((k, v) # entries m')) = mset (map fst (entries m))"
    by (simp only: mset_map)
  from mset_eq_imp_distinct_iff [OF this] have uq: "unique_keys m'"
    using wf_D(7) [OF assms(1)] by (simp add: unique_keys_def)
  have "length ((k, v) # entries m') = length (entries m)"
    using readd by (intro mset_eq_length) simp
  then have len: "length (entries m) = length (entries m') + 1" by simp
  then have len': "length (entries m') = length (entries m) - 1" and pos: "0 < length (entries m)"
    by simp_all
  have "size_m m' = sub_sz (size_m m) 1" by (simp add: m'_def)
  then have sz: "size_m m' = length (entries m') mod 2 ^ 64"
    by (simp only: wf_D(8) [OF assms(1)] sub_sz_mod [OF pos] len')
  have sh: "shape (count_threads m') (storage_size m') (storage m')"
    using wf_D(5) [OF assms(1)] by (simp add: m'_def shape_set_bucket)
  have "set b' \<subseteq> set b" using mb by (metis in_diffD set_mset_mset subsetI)
  moreover have "\<forall>e \<in> set b. hash_function m (fst e) mod count_threads m = ex \<and>
                      hash_function m (fst e) mod storage_size m = ind"
    using wf_D(6) [OF assms(1)] addresses(3,4) [OF assms(1), of k]
    unfolding addressed_def b_def bucket_of_def ex_def ind_def by blast
  ultimately have "\<forall>e \<in> set b'. hash_function m (fst e) mod count_threads m = ex \<and>
                      hash_function m (fst e) mod storage_size m = ind" by blast
  then have "addressed (hash_function m) (count_threads m) (storage_size m)
               (set_bucket (storage m) ex ind b')"
    using wf_D(6) [OF assms(1)] addresses(3,4) [OF assms(1), of k]
    unfolding ex_def ind_def by (intro addressed_set_bucket)
  then have ad: "addressed (hash_function m') (count_threads m') (storage_size m') (storage m')"
    by (simp add: m'_def)
  have "wf hw m'"
    unfolding wf_def
    using wf_D(1-4) [OF assms(1)] sh ad uq sz by (simp add: m'_def kDefaultSize_def)
  with run ine ent show ?thesis
    by (intro exI [of _ m'] exI [of _ v]) (simp add: m'_def)
qed

lemma Clear_wf:
  assumes "0 < count_threads m" "count_threads m \<le> size_t_of_int hw" "count_threads m < 2 ^ 31"
  shows "wf hw (Clear m)"
  unfolding wf_def
  using assms
  by (simp add: Clear_def shape_replicate addressed_replicate unique_keys_def entries_def)

lemma entries_replicate: "concat (map concat (replicate n (replicate k []))) = []"
  by (induction n) simp_all

lemma fresh_wf:
  assumes "0 < ct" "ct \<le> size_t_of_int hw" "ct < 2 ^ 31" "kDefaultSize \<le> ss"
  shows "wf hw \<lparr>count_threads = ct, storage_size = ss, size_m = 0, hash_function = h,
                 storage = replicate ct (replicate ss [])\<rparr>"
  unfolding wf_def using assms
  by (simp add: shape_replicate addressed_replicate unique_keys_def entries_def)

subsection \<open>Constructors and runs\<close>

lemma hw_threads:
  assumes "0 < sint hw"
  shows "size_t_of_int hw = nat (sint hw)" "0 < size_t_of_int hw" "size_t_of_int hw < 2 ^ 31"
proof -
  from assms have nn: "0 \<le> sint hw" by simp
  show 1: "size_t_of_int hw = nat (sint hw)" using nn by (rule size_t_of_int_nonneg)
  show "0 < size_t_of_int hw" using assms 1 by simp
  show "size_t_of_int hw < 2 ^ 31" using nn by (rule size_t_of_int_less)
qed

lemma default_wf:
  assumes "0 < sint hw"
  shows "wf hw (ConcurrentHashMap_default hw h)"
  unfolding ConcurrentHashMap_default_def
  using hw_threads(2,3) [OF assms] by (intro fresh_wf) simp_all

lemma sized_wf:
  assumes "0 < sint hw" "ConcurrentHashMap_sized hw e h = Inr m"
  shows "wf hw m"
proof -
  define ss where "ss = max kDefaultSize
    (sub_sz (add_sz (size_t_of_int e) (size_t_of_int hw)) 1 div size_t_of_int hw)"
  have "m = \<lparr>count_threads = size_t_of_int hw, storage_size = ss, size_m = 0, hash_function = h,
             storage = replicate (size_t_of_int hw) (replicate ss [])\<rparr>"
    using assms(2) hw_threads(2) [OF assms(1)]
    by (simp add: ConcurrentHashMap_sized_def Let_def ss_def split: if_splits)
  moreover have "kDefaultSize \<le> ss" by (simp add: ss_def)
  ultimately show ?thesis
    using hw_threads(2,3) [OF assms(1)] by (simp add: fresh_wf)
qed

lemma sized_threads_wf:
  assumes "0 < sint hw" "ConcurrentHashMap_sized_threads hw e t h = Inr m"
  shows "wf hw m"
proof -
  define ct where "ct = min (size_t_of_int hw) (size_t_of_int t)"
  define ss where "ss = max kDefaultSize (sub_sz (add_sz (size_t_of_int e) ct) 1 div ct)"
  have eq: "(if ct = 0 then Inl DivisionByZero
             else if max_size < ss then Inl LengthError
             else Inr \<lparr>count_threads = ct, storage_size = ss, size_m = 0, hash_function = h,
                       storage = replicate ct (replicate ss [])\<rparr>) = Inr m"
    using assms(2) unfolding ConcurrentHashMap_sized_threads_def Let_def ct_def ss_def .
  then have ct: "ct \<noteq> 0" by (cases "ct = 0") simp_all
  with eq have "\<not> max_size < ss" by (cases "max_size < ss") simp_all
  with eq ct have "m = \<lparr>count_threads = ct, storage_size = ss, size_m = 0, hash_function = h,
             storage = replicate ct (replicate ss [])\<rparr>"
    by simp
  moreover have "kDefaultSize \<le> ss" by (simp add: ss_def)
  moreover have "ct \<le> size_t_of_int hw" by (simp add: ct_def)
  moreover from this have "ct < 2 ^ 31" using hw_threads(3) [OF assms(1)] by simp
  ultimately show ?thesis using ct by (simp add: fresh_wf)
qed

lemma constructed_wf:
  assumes "0 < sint hw" "constructed hw m"
  shows "wf hw m"
  using assms(2) unfolding constructed_def
  by (metis default_wf [OF assms(1)] sized_wf [OF assms(1)] sized_threads_wf [OF assms(1)])

lemma constructed_empty:
  assumes "constructed hw m"
  shows "entries m = []"
proof -
  from assms consider
      (default) "m = ConcurrentHashMap_default hw (hash_function m)"
    | (sized) e where "ConcurrentHashMap_sized hw e (hash_function m) = Inr m"
    | (threads) e t where "ConcurrentHashMap_sized_threads hw e t (hash_function m) = Inr m"
    unfolding constructed_def by blast
  then have "\<exists>ct ss. storage m = replicate ct (replicate ss [])"
  proof cases
    case default
    then have "storage m = storage (ConcurrentHashMap_default hw (hash_function m))"
      by (rule arg_cong)
    then show ?thesis by (simp add: ConcurrentHashMap_default_def)
  next
    case sized
    then have "Inr (storage m) =
        map_sum id storage (ConcurrentHashMap_sized hw e (hash_function m))" by simp
    then show ?thesis
      by (simp add: ConcurrentHashMap_sized_def Let_def split: if_splits)
  next
    case threads
    then have "Inr (storage m) =
        map_sum id storage (ConcurrentHashMap_sized_threads hw e t (hash_function m))" by simp
    then show ?thesis
      by (simp add: ConcurrentHashMap_sized_threads_def Let_def split: if_splits)
  qed
  then show ?thesis by (auto simp: entries_def entries_replicate)
qed

lemma apply_op_total:
  fixes m :: "('k, 'v) ConcurrentHashMap"
  assumes "wf hw m" "rehash_fits m"
  shows "\<exists>m'. apply_op hw dflt x m = Inr m'"
proof (cases x)
  case (OpInsert k v)
  show ?thesis
  proof (cases "k \<in> keys m")
    case True
    with assms(1) OpInsert show ?thesis by (simp add: Insert_present)
  next
    case False
    from Insert_absent_total [OF assms False, of v] OpInsert show ?thesis by auto
  qed
next
  case (OpErase k)
  show ?thesis
  proof (cases "k \<in> keys m")
    case True
    from Erase_present [OF assms(1) True] OpErase show ?thesis by auto
  next
    case False
    with assms(1) OpErase show ?thesis by (simp add: Erase_absent)
  qed
next
  case (OpFind k)
  then show ?thesis by (simp add: Find_wf [OF assms(1)])
next
  case (OpAt k)
  then show ?thesis by (simp add: At_wf [OF assms(1)] split: option.split)
next
  case OpClear
  then show ?thesis by simp
next
  case OpRehash
  with Rehashing_total [OF assms] show ?thesis by simp
qed

lemma apply_op_wf:
  fixes m :: "('k, 'v) ConcurrentHashMap"
  assumes "wf hw m" "rehash_fits m" "apply_op hw dflt x m = Inr m'"
  shows "wf hw m'"
proof (cases x)
  case (OpInsert k v)
  show ?thesis
  proof (cases "k \<in> keys m")
    case True
    with assms OpInsert show ?thesis by (simp add: Insert_present)
  next
    case False
    from Insert_absent [OF assms(1,2) False, of v] assms(3) OpInsert show ?thesis by auto
  qed
next
  case (OpErase k)
  show ?thesis
  proof (cases "k \<in> keys m")
    case True
    from Erase_present [OF assms(1) True] assms(3) OpErase show ?thesis by auto
  next
    case False
    with assms OpErase show ?thesis by (simp add: Erase_absent)
  qed
next
  case (OpFind k)
  with assms show ?thesis by (simp add: Find_wf [OF assms(1)])
next
  case (OpAt k)
  with assms show ?thesis by (simp add: At_wf [OF assms(1)] split: option.splits)
next
  case OpClear
  with assms(3) have "m' = Clear m" by simp
  with Clear_wf [OF wf_D(1-3) [OF assms(1)]] show ?thesis by simp
next
  case OpRehash
  with Rehashing_wf [OF assms(1,2)] assms(3) show ?thesis by auto
qed

lemma trace_wf:
  fixes m :: "('k, 'v) ConcurrentHashMap"
  assumes "wf hw m" "\<forall>s \<in> set (trace hw dflt xs m). rehash_fits s"
  shows "length (trace hw dflt xs m) = Suc (length xs) \<and>
         (\<forall>s \<in> set (trace hw dflt xs m). wf hw s)"
  using assms
proof (induction xs arbitrary: m)
  case Nil
  then show ?case by simp
next
  case (Cons x xs)
  from Cons.prems(2) have fm: "rehash_fits m" by simp
  from apply_op_total [OF Cons.prems(1) fm] obtain m' where m': "apply_op hw dflt x m = Inr m'"
    by blast
  then have tr: "trace hw dflt (x # xs) m = m # trace hw dflt xs m'" by simp
  from Cons.prems(2) [unfolded tr] have
    rest: "\<forall>s \<in> set (trace hw dflt xs m'). rehash_fits s" by simp
  from apply_op_wf [OF Cons.prems(1) fm m'] have "wf hw m'" .
  from Cons.IH [OF this rest] Cons.prems(1) show ?case by (simp only: tr) simp
qed

subsection \<open>Further lemmas and the example objects\<close>

lemma keys_appended:
  assumes "wf hw m" "k \<notin> keys m"
  shows "keys (appended m k v) = insert k (keys m)"
proof -
  have "set_mset (mset (entries (appended m k v))) = set_mset (add_mset (k, v) (mset (entries m)))"
    using appended_wf(2) [OF assms, of v] by simp
  then have "set (entries (appended m k v)) = insert (k, v) (set (entries m))" by simp
  then show ?thesis by (simp add: keys_def)
qed

lemma example_wf: "wf 1 (ConcurrentHashMap_default 1 (\<lambda>k::nat. k) :: (nat, nat) ConcurrentHashMap)"
  by (rule default_wf) simp

lemma example_keys: "keys (ConcurrentHashMap_default 1 (\<lambda>k::nat. k) :: (nat, nat) ConcurrentHashMap) = {}"
  by (simp add: keys_def entries_def ConcurrentHashMap_default_def entries_replicate)

lemma Find_absent: "wf hw m \<Longrightarrow> k \<notin> keys m \<Longrightarrow> Find m dflt k = Inr (False, dflt)"
  by (simp add: Find_wf map_of_eq_None_iff [THEN iffD2] keys_def)

lemma At_absent: "wf hw m \<Longrightarrow> k \<notin> keys m \<Longrightarrow> At m k = Inl OutOfRange"
  by (simp add: At_wf map_of_eq_None_iff [THEN iffD2] keys_def)

lemma map_of_present:
  "wf hw m \<Longrightarrow> (k, v) \<in> set (entries m) \<Longrightarrow> map_of (entries m) k = Some v"
  using wf_D(7) [of hw m] by (simp add: unique_keys_def)

lemma Find_present: "wf hw m \<Longrightarrow> (k, v) \<in> set (entries m) \<Longrightarrow> Find m dflt k = Inr (True, v)"
  by (simp add: Find_wf map_of_present)

lemma At_present: "wf hw m \<Longrightarrow> (k, v) \<in> set (entries m) \<Longrightarrow> At m k = Inr v"
  by (simp add: At_wf map_of_present)

lemma Insert_total:
  fixes m :: "('k, 'v) ConcurrentHashMap"
  assumes "wf hw m" "rehash_fits m"
  shows "\<exists>r. Insert hw m k v = Inr r"
  using Insert_present [OF assms(1), of k v] Insert_absent_total [OF assms, of k v] by blast

lemma Erase_total:
  fixes m :: "('k, 'v) ConcurrentHashMap"
  assumes "wf hw m"
  shows "\<exists>r. Erase m k = Inr r"
  using Erase_present [OF assms, of k] Erase_absent [OF assms, of k] by blast

lemma entries_appended:
  assumes "wf hw m" "k \<notin> keys m"
  shows "set (entries (appended m k v)) = insert (k, v) (set (entries m))"
proof -
  have "set_mset (mset (entries (appended m k v))) = set_mset (add_mset (k, v) (mset (entries m)))"
    using appended_wf(2) [OF assms, of v] by simp
  then show ?thesis by simp
qed

lemma Clear_fields:
  "Size (Clear m) = 0" "storage_size (Clear m) = kDefaultSize"
  "count_threads (Clear m) = count_threads m"
  "hash_function (Clear m) = hash_function m"
  "storage (Clear m) = replicate (count_threads m) (replicate kDefaultSize [])"
  "entries (Clear m) = []"
  by (simp_all add: Clear_def Size_def entries_def entries_replicate)

lemma Clear_lookup:
  "Find (Clear m) dflt k =
     (if count_threads m = 0 then Inl ModuloByZero else Inr (False, dflt))"
  "At (Clear m) k = (if count_threads m = 0 then Inl ModuloByZero else Inl OutOfRange)"
  by (simp_all add: Find_def At_def Clear_fields GetHash_def bucket_at_def kDefaultSize_def)

lemma example_fits:
  "rehash_fits (ConcurrentHashMap_default 1 (\<lambda>k::nat. k) :: (nat, nat) ConcurrentHashMap)"
  by (simp add: rehash_fits_def ConcurrentHashMap_default_def kDefaultSize_def size_t_of_int_def)

lemma example_fields:
  "count_threads (ConcurrentHashMap_default 1 (\<lambda>k::nat. k) :: (nat, nat) ConcurrentHashMap) = 1"
  "storage_size (ConcurrentHashMap_default 1 (\<lambda>k::nat. k) :: (nat, nat) ConcurrentHashMap) = 29"
  "size_m (ConcurrentHashMap_default 1 (\<lambda>k::nat. k) :: (nat, nat) ConcurrentHashMap) = 0"
  by (simp_all add: ConcurrentHashMap_default_def kDefaultSize_def size_t_of_int_def)

lemma ceiling_div_mult: "0 < ct \<Longrightarrow> ceiling_div (n * ct) ct = n"
  by (simp add: ceiling_div_def)

lemma sized_value:
  fixes hw expected_size :: c_int
  assumes hw: "0 < sint hw" and e: "0 \<le> sint expected_size"
    and ct: "0 < ct" "ct \<le> nat (sint hw)"
  shows "sub_sz (add_sz (size_t_of_int expected_size) ct) 1 div ct
           = ceiling_div (nat (sint expected_size)) ct"
proof -
  have "size_t_of_int expected_size < 2 ^ 31" using e by (rule size_t_of_int_less)
  moreover have "ct < 2 ^ 31" using ct(2) hw_threads(1,3) [OF hw] by simp
  ultimately have "size_t_of_int expected_size + ct < 2 ^ 31 + 2 ^ 31" by (rule add_strict_mono)
  then have "size_t_of_int expected_size + ct < 2 ^ 64" by (rule less_trans) simp
  from round_up_div [OF ct(1) this] round_up_div_ceiling [OF ct(1)]
  show ?thesis by (simp add: size_t_of_int_nonneg [OF e])
qed

lemma sized_length:
  fixes expected_size :: c_int
  assumes "0 \<le> sint expected_size"
  shows "\<not> max_size < max kDefaultSize (ceiling_div (nat (sint expected_size)) ct)"
proof -
  have "sint expected_size < 2 ^ 31" using sint_lt [of expected_size] by simp
  then have less: "nat (sint expected_size) < 2 ^ 31" using assms by simp
  have "ceiling_div (nat (sint expected_size)) ct \<le> nat (sint expected_size) div ct + 1"
    by (simp add: ceiling_div_def)
  moreover have "nat (sint expected_size) div ct \<le> nat (sint expected_size)"
    by (rule div_le_dividend)
  ultimately have "ceiling_div (nat (sint expected_size)) ct \<le> nat (sint expected_size) + 1"
    by linarith
  with less have "ceiling_div (nat (sint expected_size)) ct \<le> 2 ^ 31" by simp
  then show ?thesis by (simp add: max_size_def kDefaultSize_def)
qed

lemma Rehashing_lookup:
  fixes m :: "('k, 'v) ConcurrentHashMap"
  assumes "wf hw m" "wf hw m'" "mset (entries m') = mset (entries m)"
  shows "Find m' dflt k = Find m dflt k" "At m' k = At m k"
proof -
  have "map_of (entries m') = map_of (entries m)"
    using assms(3) wf_D(7) [OF assms(2)] unfolding unique_keys_def by (rule map_of_mset)
  then show "Find m' dflt k = Find m dflt k" "At m' k = At m k"
    by (simp_all add: Find_wf [OF assms(1)] Find_wf [OF assms(2)]
          At_wf [OF assms(1)] At_wf [OF assms(2)])
qed

lemma Insert_triggers_Rehashing:
  fixes m :: "('k, 'v) ConcurrentHashMap"
  assumes "wf hw m" "k \<notin> keys m" "\<not> length (bucket_of m k @ [(k, v)]) < kLimitCollisions"
  shows "Insert hw m k v =
           (case Rehashing hw (appended m k v) of Inl err \<Rightarrow> Inl err | Inr m2 \<Rightarrow> Inr (True, m2))"
  using assms by (simp add: Insert_unfold)

lemma crowded_entries: "entries crowded = map (\<lambda>i. (i, 10 * i)) [0..<24]"
  by (simp add: crowded_def entries_def entries_replicate del: upt_Suc)

lemma crowded_keys: "keys crowded = {0..<24}"
  unfolding keys_def crowded_entries by (simp add: image_image del: upt_Suc)

lemma crowded_wf: "wf 1 crowded"
proof -
  have "addressed (\<lambda>k. 0) 1 29 [map (\<lambda>i. (i, 10 * i)) [0..<24] # replicate 28 []]"
    unfolding addressed_def
  proof (intro allI impI ballI)
    fix ex ind :: nat and e :: "nat \<times> nat"
    assume ex: "ex < length [map (\<lambda>i. (i, 10 * i)) [0..<24] # replicate 28 []]"
    then have ex0: "ex = 0" by simp
    assume "ind < length ([map (\<lambda>i. (i, 10 * i)) [0..<24] # replicate 28 []] ! ex)"
      and "e \<in> set ([map (\<lambda>i. (i, 10 * i)) [0..<24] # replicate 28 []] ! ex ! ind)"
    then have "ind = 0" using ex0 by (cases ind) simp_all
    with ex0 show "0 mod 1 = ex \<and> 0 mod 29 = ind" by simp
  qed
  moreover have "unique_keys crowded"
    unfolding unique_keys_def crowded_entries by (simp add: comp_def del: upt_Suc)
  moreover have "size_m crowded = length (entries crowded) mod 2 ^ 64"
    unfolding crowded_entries by (simp add: crowded_def)
  ultimately show ?thesis
    unfolding wf_def by (simp add: crowded_def size_t_of_int_def kDefaultSize_def shape_def)
qed

lemma crowded_fits: "rehash_fits crowded"
  by (simp add: rehash_fits_def crowded_def)

lemma crowded_bucket: "bucket_of crowded k = map (\<lambda>i. (i, 10 * i)) [0..<24]"
  by (simp add: bucket_of_def crowded_def del: upt_Suc)

lemma trace_hd: "trace hw dflt xs m = m # tl (trace hw dflt xs m)"
  by (cases xs) simp_all

lemma trace_step:
  "apply_op hw dflt x m = Inr m' \<Longrightarrow> trace hw dflt (x # xs) m = m # trace hw dflt xs m'"
  by simp

lemma run_step:
  "apply_op hw dflt x m = Inr m' \<Longrightarrow> run hw dflt (x # xs) m = run hw dflt xs m'"
  by simp

lemma example_constructed:
  "constructed 1 (ConcurrentHashMap_default 1 (\<lambda>k::nat. k) :: (nat, nat) ConcurrentHashMap)"
  by (simp add: constructed_def ConcurrentHashMap_default_def)

lemma example_insert:
  "Insert 1 (ConcurrentHashMap_default 1 (\<lambda>k::nat. k)) 5 (7::nat)
     = Inr (True, appended (ConcurrentHashMap_default 1 (\<lambda>k::nat. k)) 5 7)"
proof -
  let ?m0 = "ConcurrentHashMap_default 1 (\<lambda>k::nat. k) :: (nat, nat) ConcurrentHashMap"
  have a: "5 \<notin> keys ?m0" by (simp add: example_keys)
  have "bucket_of ?m0 5 = []"
    by (simp add: bucket_of_def ConcurrentHashMap_default_def size_t_of_int_def kDefaultSize_def)
  then show ?thesis
    using a by (simp add: Insert_unfold [OF example_wf] kLimitCollisions_def)
qed

lemma example_appended:
  "wf 1 (appended (ConcurrentHashMap_default 1 (\<lambda>k::nat. k)) 5 (7::nat))"
  "keys (appended (ConcurrentHashMap_default 1 (\<lambda>k::nat. k)) 5 (7::nat)) = {5}"
  "entries (appended (ConcurrentHashMap_default 1 (\<lambda>k::nat. k)) 5 (7::nat)) = [(5, 7)]"
  "rehash_fits (appended (ConcurrentHashMap_default 1 (\<lambda>k::nat. k)) 5 (7::nat))"
proof -
  let ?m0 = "ConcurrentHashMap_default 1 (\<lambda>k::nat. k) :: (nat, nat) ConcurrentHashMap"
  have a: "5 \<notin> keys ?m0" by (simp add: example_keys)
  show "wf 1 (appended ?m0 5 7)" using example_wf a by (rule appended_wf(1))
  show "keys (appended ?m0 5 7) = {5}"
    using keys_appended [OF example_wf a, of 7] by (simp add: example_keys)
  have "entries ?m0 = []" using example_keys by (simp add: keys_def)
  then have "mset (entries (appended ?m0 5 7)) = {#(5, 7)#}"
    using appended_wf(2) [OF example_wf a, of 7] by simp
  then show "entries (appended ?m0 5 7) = [(5, 7)]" by (simp add: mset_single_iff_right)
  show "rehash_fits (appended ?m0 5 7)" using example_fits by (simp add: appended_fields)
qed

lemma example_erase:
  "\<exists>m'. Erase (appended (ConcurrentHashMap_default 1 (\<lambda>k::nat. k)) 5 (7::nat)) 5 = Inr (True, m') \<and>
     wf 1 m' \<and> entries m' = [] \<and> rehash_fits m' \<and> size_m m' = 0"
proof -
  let ?m1 = "appended (ConcurrentHashMap_default 1 (\<lambda>k::nat. k)) 5 (7::nat)"
  have "5 \<in> keys ?m1" by (simp add: example_appended)
  from Erase_present [OF example_appended(1) this] obtain m' v where
    m': "Erase ?m1 5 = Inr (True, m')" "wf 1 m'" "(5, v) \<in> set (entries ?m1)"
      "mset (entries m') = mset (entries ?m1) - {#(5, v)#}"
      "count_threads m' = count_threads ?m1" "storage_size m' = storage_size ?m1"
    by blast
  from m'(3) have "v = 7" by (simp add: example_appended)
  with m'(4) have e: "entries m' = []" by (simp add: example_appended)
  have "rehash_fits m'" using example_appended(4) m'(5,6) by (simp add: rehash_fits_def)
  moreover have "size_m m' = 0" using wf_D(8) [OF m'(2)] e by simp
  ultimately show ?thesis using m'(1,2) e by blast
qed

lemma keys_erased:
  assumes "unique_keys m" "(k, v) \<in> set (entries m)"
    "mset (entries m') = mset (entries m) - {#(k, v)#}"
  shows "keys m' = keys m - {k}" "length (entries m) = Suc (length (entries m'))"
proof -
  have readd: "mset (entries m) = mset ((k, v) # entries m')"
    using assms(2,3) by simp
  then have ks: "mset (map fst (entries m)) = mset (map fst ((k, v) # entries m'))"
    by (simp only: mset_map)
  from mset_eq_imp_distinct_iff [OF ks] assms(1)
  have "distinct (map fst ((k, v) # entries m'))" by (simp add: unique_keys_def)
  then have notin: "k \<notin> keys m'" by (simp add: keys_def)
  from mset_eq_setD [OF ks] have "keys m = insert k (keys m')" by (simp add: keys_def)
  with notin show "keys m' = keys m - {k}" by auto
  from mset_eq_length [OF readd] show "length (entries m) = Suc (length (entries m'))" by simp
qed

lemma count_inserts_le: "count_inserts xs \<le> length xs"
  by (induction xs rule: count_inserts.induct) simp_all

lemma mixture_run:
  fixes m :: "('k, 'v) ConcurrentHashMap"
  assumes "wf hw m" "keys m = set present" "set present \<subseteq> set seen"
    "inserts_distinct_erases_present seen present xs"
    "list_all rehash_fits (trace hw dflt xs m)"
  shows "\<exists>m'. run hw dflt xs m = Inr m' \<and> wf hw m' \<and>
           length (entries m') + count_erases xs = length (entries m) + count_inserts xs"
  using assms
proof (induction xs arbitrary: m seen present)
  case Nil
  then show ?case by simp
next
  case (Cons x xs)
  from Cons.prems(5) have fm: "rehash_fits m" by (simp add: trace_hd [of hw dflt "x # xs" m])
  show ?case
  proof (cases x)
    case (OpInsert k v)
    with Cons.prems(4) have fresh: "k \<notin> set seen"
      and rest: "inserts_distinct_erases_present (k # seen) (k # present) xs" by simp_all
    from fresh Cons.prems(2,3) have absent: "k \<notin> keys m" by auto
    from Insert_absent [OF Cons.prems(1) fm absent, of v] obtain m1 where
      m1: "Insert hw m k v = Inr (True, m1)" "wf hw m1"
        "mset (entries m1) = add_mset (k, v) (mset (entries m))"
      by blast
    have step: "apply_op hw dflt x m = Inr m1" using OpInsert m1(1) by simp
    have "set_mset (mset (entries m1)) = set_mset (add_mset (k, v) (mset (entries m)))"
      using m1(3) by simp
    then have "set (entries m1) = insert (k, v) (set (entries m))" by simp
    then have k1: "keys m1 = set (k # present)" using Cons.prems(2) by (simp add: keys_def)
    have s1: "set (k # present) \<subseteq> set (k # seen)" using Cons.prems(3) by auto
    have "size (mset (entries m1)) = size (add_mset (k, v) (mset (entries m)))"
      using m1(3) by simp
    then have len: "length (entries m1) = Suc (length (entries m))" by simp
    have f1: "list_all rehash_fits (trace hw dflt xs m1)"
      using Cons.prems(5) unfolding trace_step [OF step] by simp
    from Cons.IH [OF m1(2) k1 s1 rest f1] obtain m' where
      "run hw dflt xs m1 = Inr m'" "wf hw m'"
      "length (entries m') + count_erases xs = length (entries m1) + count_inserts xs"
      by blast
    moreover have "run hw dflt (x # xs) m = run hw dflt xs m1" by (rule run_step [OF step])
    moreover have "count_inserts (x # xs) = Suc (count_inserts xs)"
      "count_erases (x # xs) = count_erases xs" using OpInsert by simp_all
    ultimately show ?thesis using len by simp
  next
    case (OpErase k)
    with Cons.prems(4) have here: "k \<in> set present"
      and rest: "inserts_distinct_erases_present seen (removeAll k present) xs" by simp_all
    from here Cons.prems(2) have present: "k \<in> keys m" by simp
    from Erase_present [OF Cons.prems(1) present] obtain m1 v where
      m1: "Erase m k = Inr (True, m1)" "wf hw m1" "(k, v) \<in> set (entries m)"
        "mset (entries m1) = mset (entries m) - {#(k, v)#}"
      by blast
    have step: "apply_op hw dflt x m = Inr m1" using OpErase m1(1) by simp
    from keys_erased [OF wf_D(7) [OF Cons.prems(1)] m1(3,4)]
    have k1: "keys m1 = set (removeAll k present)"
      and len: "length (entries m) = Suc (length (entries m1))"
      using Cons.prems(2) by simp_all
    have s1: "set (removeAll k present) \<subseteq> set seen" using Cons.prems(3) by auto
    have f1: "list_all rehash_fits (trace hw dflt xs m1)"
      using Cons.prems(5) unfolding trace_step [OF step] by simp
    from Cons.IH [OF m1(2) k1 s1 rest f1] obtain m' where
      "run hw dflt xs m1 = Inr m'" "wf hw m'"
      "length (entries m') + count_erases xs = length (entries m1) + count_inserts xs"
      by blast
    moreover have "run hw dflt (x # xs) m = run hw dflt xs m1" by (rule run_step [OF step])
    moreover have "count_inserts (x # xs) = count_inserts xs"
      "count_erases (x # xs) = Suc (count_erases xs)" using OpErase by simp_all
    ultimately show ?thesis using len by simp
  next
    case (OpFind k)
    with Cons.prems(4) show ?thesis by simp
  next
    case (OpAt k)
    with Cons.prems(4) show ?thesis by simp
  next
    case OpClear
    with Cons.prems(4) show ?thesis by simp
  next
    case OpRehash
    with Cons.prems(4) show ?thesis by simp
  qed
qed

lemma Size_exact: "wf hw m \<Longrightarrow> length (entries m) < 2 ^ 64 \<Longrightarrow> Size m = length (entries m)"
  by (simp add: Size_def wf_D(8))

lemma wide_constructed: "ConcurrentHashMap_sized_threads 8 1431655766 1 far_hash = Inr wide"
  by (simp add: ConcurrentHashMap_sized_threads_def wide_def size_t_of_int_def Let_def
        add_sz_def sub_sz_def kDefaultSize_def max_size_def)

lemma narrowed: "size_t_of_int (int_of_size_t (mul_sz (mul_sz 1431655766 1) 3)) = 2"
  by (simp add: size_t_of_int_def int_of_size_t_def mul_sz_def)

lemma wide_nested:
  "ConcurrentHashMap_sized_threads 8 (int_of_size_t (mul_sz (mul_sz 1431655766 1) 3))
     (int_of_size_t 1) far_hash
   = Inr \<lparr>count_threads = 1, storage_size = 29, size_m = 0, hash_function = far_hash,
          storage = replicate 1 (replicate 29 ([] :: (nat, nat) bucket))\<rparr>"
  by (simp add: ConcurrentHashMap_sized_threads_def size_t_of_int_def int_of_size_t_def
        mul_sz_def Let_def add_sz_def sub_sz_def kDefaultSize_def max_size_def)

lemma far_hash_mod:
  "far_hash k mod 1 = 0" "far_hash k mod 1431655766 = 5" "far_hash k mod 4294967298 = 5"
proof -
  show "far_hash k mod 1 = 0" by simp
  have "far_hash k = 5 + 1431655766 * (3 * (k mod 32))" by (simp add: far_hash_def)
  then have "far_hash k mod 1431655766 = 5 mod 1431655766" by (simp only: mod_mult_self2)
  then show "far_hash k mod 1431655766 = 5" by simp
  have "far_hash k mod 4294967298 = 5 mod 4294967298"
    unfolding far_hash_def by (simp only: mod_mult_self2)
  then show "far_hash k mod 4294967298 = 5" by simp
qed

lemma far_hash_29: "far_hash 1 mod 29 = 23"
  by (simp add: far_hash_def)

lemma Rehashing_core:
  fixes m :: "('k, 'v) ConcurrentHashMap"
  assumes "wf hw m" and "0 < ssn"
    and ctor: "ConcurrentHashMap_sized_threads hw
             (int_of_size_t (mul_sz (mul_sz (storage_size m) (count_threads m)) 3))
             (int_of_size_t (count_threads m)) (hash_function m)
           = Inr \<lparr>count_threads = count_threads m, storage_size = ssn, size_m = 0,
                  hash_function = hash_function m,
                  storage = replicate (count_threads m) (replicate ssn ([] :: ('k, 'v) bucket))\<rparr>"
  shows "\<exists>new. shape (count_threads m) ssn new \<and>
           addressed (hash_function m) (count_threads m) ssn new \<and>
           mset (concat (map concat new)) = mset (entries m) \<and>
           Rehashing hw m =
             Inr (m\<lparr>storage := new,
                    storage_size :=
                      sub_sz (add_sz (mul_sz (mul_sz (storage_size m) (count_threads m)) 3)
                                (count_threads m)) 1 div count_threads m\<rparr>)"
proof -
  define ct where "ct = count_threads m"
  define h where "h = hash_function m"
  have ct: "0 < ct" using wf_D(1) [OF assms(1)] by (simp add: ct_def)
  have "shape ct ssn (replicate ct (replicate ssn []))" by (rule shape_replicate)
  moreover have "addressed h ct ssn (replicate ct (replicate ssn []))"
    by (rule addressed_replicate)
  ultimately obtain new where
    run: "rehash_entries h ct ssn (entries m) (replicate ct (replicate ssn [])) = Inr new"
    and new: "shape ct ssn new" "addressed h ct ssn new"
    and ms: "mset (concat (map concat new)) =
               mset (concat (map concat (replicate ct (replicate ssn [])))) + mset (entries m)"
    using rehash_entries_ok [OF _ _ ct assms(2), of "replicate ct (replicate ssn [])" h "entries m"]
    by blast
  have ms': "mset (concat (map concat new)) = mset (entries m)" using ms by simp
  have "rehash_shards h ct (storage_size m) ssn (storage m) [0..<ct] (replicate ct (replicate ssn []))
          = rehash_entries h ct ssn (concat (map concat (storage m))) (replicate ct (replicate ssn []))"
    unfolding ct_def by (rule rehash_shards_all [OF wf_D(5) [OF assms(1)]])
  with run have loops: "rehash_shards h ct (storage_size m) ssn (storage m) [0..<ct]
                          (replicate ct (replicate ssn [])) = Inr new"
    by (simp add: entries_def)
  have "Rehashing hw m =
             Inr (m\<lparr>storage := new,
                    storage_size :=
                      sub_sz (add_sz (mul_sz (mul_sz (storage_size m) (count_threads m)) 3)
                                (count_threads m)) 1 div count_threads m\<rparr>)"
    unfolding Rehashing_def Let_def
    using ct loops by (simp only: ctor sum.case) (simp add: ct_def h_def)
  with new ms' show ?thesis
    unfolding ct_def h_def by (intro exI [of _ new]) simp
qed

lemma bucket_of_appended:
  assumes "wf hw m"
    and "hash_function m k' mod count_threads m = hash_function m k mod count_threads m"
    and "hash_function m k' mod storage_size m = hash_function m k mod storage_size m"
  shows "bucket_of (appended m k v) k' = bucket_of m k @ [(k, v)]"
  using addresses(3,4) [OF assms(1), of k] assms(2,3)
  by (simp add: bucket_of_def appended_def nth_set_bucket)

lemma wide_wf: "wf 8 wide"
  using _ wide_constructed by (rule sized_threads_wf) simp

lemma filled_fields:
  "count_threads (filled n) = 1" "storage_size (filled n) = 1431655766"
  "hash_function (filled n) = far_hash"
  by (induction n) (simp_all add: wide_def appended_fields)

lemma filled_wf: "wf 8 (filled n) \<and> keys (filled n) = {1..n}"
proof (induction n)
  case 0
  have "entries wide = []" by (simp add: entries_def wide_def entries_replicate)
  then show ?case using wide_wf by (simp add: keys_def)
next
  case (Suc n)
  then have w: "wf 8 (filled n)" and k: "Suc n \<notin> keys (filled n)" by simp_all
  from appended_wf(1) [OF w k] keys_appended [OF w k] Suc show ?case
    by (auto simp: atLeastAtMostSuc_conv)
qed

lemma filled_bucket: "bucket_of (filled n) k = map (\<lambda>i. (i, 10 * i)) [1..<Suc n]"
proof (induction n arbitrary: k)
  case 0
  show ?case by (simp add: bucket_of_def wide_def far_hash_mod)
next
  case (Suc n)
  have "bucket_of (filled (Suc n)) k = bucket_of (filled n) (Suc n) @ [(Suc n, 10 * Suc n)]"
    unfolding filled.simps using filled_wf [of n]
    by (intro bucket_of_appended [where hw = 8]) (simp_all add: filled_fields far_hash_mod)
  then show ?case by (simp add: Suc)
qed

lemma filled_insert:
  assumes "n < 24"
  shows "Insert 8 (filled n) (Suc n) (10 * Suc n) = Inr (True, filled (Suc n))"
proof -
  have w: "wf 8 (filled n)" and k: "Suc n \<notin> keys (filled n)" using filled_wf [of n] by simp_all
  have "length (bucket_of (filled n) (Suc n) @ [(Suc n, 10 * Suc n)]) < kLimitCollisions"
    using assms by (simp add: filled_bucket kLimitCollisions_def)
  with k show ?thesis by (simp add: Insert_unfold [OF w])
qed

lemma filled_Rehashing:
  "\<exists>new. shape 1 29 new \<and> addressed far_hash 1 29 new \<and>
     mset (concat (map concat new)) = mset (entries (filled n)) \<and>
     Rehashing 8 (filled n) = Inr (filled n\<lparr>storage := new, storage_size := 4294967298\<rparr>)"
proof -
  have w: "wf 8 (filled n)" using filled_wf [of n] by simp
  have f: "sub_sz (add_sz (mul_sz (mul_sz (storage_size (filled n)) (count_threads (filled n))) 3)
                     (count_threads (filled n))) 1 div count_threads (filled n) = 4294967298"
    by (simp add: filled_fields mul_sz_def add_sz_def sub_sz_def)
  have c: "ConcurrentHashMap_sized_threads 8
             (int_of_size_t (mul_sz (mul_sz (storage_size (filled n)) (count_threads (filled n))) 3))
             (int_of_size_t (count_threads (filled n))) (hash_function (filled n))
           = Inr \<lparr>count_threads = count_threads (filled n), storage_size = 29, size_m = 0,
                  hash_function = hash_function (filled n),
                  storage = replicate (count_threads (filled n))
                              (replicate 29 ([] :: (nat, nat) bucket))\<rparr>"
    unfolding filled_fields by (rule wide_nested)
  have p: "(0::nat) < 29" by simp
  from Rehashing_core [OF w p c] obtain new where
    "shape (count_threads (filled n)) 29 new"
    "addressed (hash_function (filled n)) (count_threads (filled n)) 29 new"
    "mset (concat (map concat new)) = mset (entries (filled n))"
    "Rehashing 8 (filled n) =
       Inr (filled n\<lparr>storage := new,
              storage_size :=
                sub_sz (add_sz (mul_sz (mul_sz (storage_size (filled n)) (count_threads (filled n))) 3)
                          (count_threads (filled n))) 1 div count_threads (filled n)\<rparr>)"
    by blast
  then show ?thesis
    unfolding f by (intro exI [of _ new]) (simp add: filled_fields)
qed

declare filled.simps [simp del]

lemma resized_bucket:
  assumes "shape 1 29 new" "addressed far_hash 1 29 new"
    and m': "count_threads m' = 1" "storage_size m' = 4294967298" "hash_function m' = far_hash"
      "storage m' = new"
  shows "GetHash (hash_function m') k (count_threads m') = Inr 0"
    and "GetHash (hash_function m') k (storage_size m') = Inr 5"
    and "bucket_at (storage m') 0 5 = Inr (new ! 0 ! 5)"
    and "far_hash k mod 29 \<noteq> 5 \<Longrightarrow> key_index k (new ! 0 ! 5) = None"
    and "set (new ! 0 ! 5) \<subseteq> set (concat (map concat new))"
proof -
  show "GetHash (hash_function m') k (count_threads m') = Inr 0"
    by (simp add: m' GetHash_def)
  show "GetHash (hash_function m') k (storage_size m') = Inr 5"
    by (simp add: m' GetHash_def far_hash_mod)
  have l: "length new = 1" using assms(1) by (simp add: shape_length)
  then have l0: "length (new ! 0) = 29" using shape_nth [OF assms(1), of 0] by simp
  from l l0 show "bucket_at (storage m') 0 5 = Inr (new ! 0 ! 5)"
    by (simp add: m' bucket_at_def)
  have a: "\<forall>e \<in> set (new ! 0 ! 5). far_hash (fst e) mod 29 = 5"
    using assms(2) l l0 unfolding addressed_def by simp
  show "key_index k (new ! 0 ! 5) = None" if "far_hash k mod 29 \<noteq> 5"
    using a that by (auto simp: key_index_None)
  have "new ! 0 \<in> set new" using l by simp
  moreover have "new ! 0 ! 5 \<in> set (new ! 0)" using l0 by simp
  ultimately show "set (new ! 0 ! 5) \<subseteq> set (concat (map concat new))" by auto
qed

lemma wide_fields:
  "count_threads wide = 1" "storage_size wide = 1431655766" "hash_function wide = far_hash"
  "size_m wide = 0" "entries wide = []" "keys wide = {}"
  by (simp_all add: wide_def entries_def keys_def entries_replicate)

lemma filled_1: "entries (filled (Suc 0)) = [(Suc 0, 10)]"
proof -
  have "Suc 0 \<notin> keys wide" by (simp add: wide_fields)
  from appended_wf(2) [OF wide_wf this, of 10]
  have "mset (entries (appended wide (Suc 0) 10)) = {#(Suc 0, 10)#}" by (simp add: wide_fields)
  then show ?thesis by (simp add: filled.simps mset_single_iff_right)
qed

lemma wide_insert: "Insert 8 wide (Suc 0) 10 = Inr (True, filled (Suc 0))"
  using filled_insert [of 0] by (simp add: filled.simps)

lemma run_append:
  "run hw dflt (xs @ ys) m =
     (case run hw dflt xs m of Inl err \<Rightarrow> Inl err | Inr m' \<Rightarrow> run hw dflt ys m')"
proof (induction xs arbitrary: m)
  case Nil
  show ?case by simp
next
  case (Cons x xs)
  show ?case by (cases "apply_op hw dflt x m") (simp_all add: Cons.IH)
qed

lemma run_inserts:
  "n \<le> 24 \<Longrightarrow> run 8 dflt (map (\<lambda>i. OpInsert i (10 * i)) [1..<Suc n]) wide = Inr (filled n)"
proof (induction n)
  case 0
  show ?case by (simp add: filled.simps)
next
  case (Suc n)
  then have IH: "run 8 dflt (map (\<lambda>i. OpInsert i (10 * i)) [1..<Suc n]) wide = Inr (filled n)"
    and n: "n < 24" by simp_all
  have "[1..<Suc (Suc n)] = [1..<Suc n] @ [Suc n]" by simp
  then have "run 8 dflt (map (\<lambda>i. OpInsert i (10 * i)) [1..<Suc (Suc n)]) wide
               = run 8 dflt [OpInsert (Suc n) (10 * Suc n)] (filled n)"
    by (simp only: map_append run_append IH sum.case list.map)
  then show ?case using filled_insert [OF n] by simp
qed

lemma filled_size: "n \<le> 25 \<Longrightarrow> size_m (filled n) = n"
proof (induction n)
  case 0
  show ?case by (simp add: filled.simps wide_fields)
next
  case (Suc n)
  then have "size_m (filled n) = n" and "n < 25" by simp_all
  then show ?case by (simp add: filled.simps appended_fields add_sz_def)
qed

lemma count_inserts_map:
  "count_inserts (map (\<lambda>i. OpInsert (f i) (g i)) xs @ ys) = length xs + count_inserts ys"
  "count_erases (map (\<lambda>i. OpInsert (f i) (g i)) xs @ ys) = count_erases ys"
  by (induction xs) simp_all

lemma mixture_inserts:
  "distinct xs \<Longrightarrow> set xs \<inter> set seen = {} \<Longrightarrow>
     inserts_distinct_erases_present seen present (map (\<lambda>i. OpInsert i (g i)) xs @ ys)
       = inserts_distinct_erases_present (rev xs @ seen) (rev xs @ present) ys"
  by (induction xs arbitrary: seen present) auto

lemma wide_resized:
  "\<exists>new. shape 1 29 new \<and> addressed far_hash 1 29 new \<and>
     mset (concat (map concat new)) = {#(Suc 0, 10)#} \<and> new ! 0 ! 5 = [] \<and>
     Rehashing 8 (filled (Suc 0)) =
       Inr (filled (Suc 0)\<lparr>storage := new, storage_size := 4294967298\<rparr>)"
proof -
  from filled_Rehashing [of "Suc 0"] obtain new where
    new: "shape 1 29 new" "addressed far_hash 1 29 new"
    and ent: "mset (concat (map concat new)) = mset (entries (filled (Suc 0)))"
    and run: "Rehashing 8 (filled (Suc 0)) =
                Inr (filled (Suc 0)\<lparr>storage := new, storage_size := 4294967298\<rparr>)"
    by auto
  define m' where "m' = filled (Suc 0)\<lparr>storage := new, storage_size := 4294967298\<rparr>"
  have m': "count_threads m' = 1" "storage_size m' = 4294967298" "hash_function m' = far_hash"
    "storage m' = new"
    by (simp_all add: m'_def filled_fields)
  have k: "key_index 1 (new ! 0 ! 5) = None"
    by (rule resized_bucket(4) [OF new m']) (simp add: far_hash_def)
  have "set (new ! 0 ! 5) \<subseteq> {(1, 10)}"
    using resized_bucket(5) [OF new m'] mset_eq_setD [OF ent] by (simp add: filled_1)
  moreover have "(1, 10) \<notin> set (new ! 0 ! 5)"
    using k by (force simp: key_index_None)
  ultimately have b: "new ! 0 ! 5 = []" by (cases "new ! 0 ! 5") auto
  from ent have "mset (concat (map concat new)) = {#(Suc 0, 10)#}" by (simp add: filled_1)
  with new b run show ?thesis by blast
qed

lemma narrow_length_error:
  "ConcurrentHashMap_sized_threads 8 (int_of_size_t (mul_sz (mul_sz 715827883 1) 3))
     (int_of_size_t 1) far_hash
   = (Inl LengthError :: error + (nat, nat) ConcurrentHashMap)"
  by (simp add: ConcurrentHashMap_sized_threads_def size_t_of_int_def int_of_size_t_def
        mul_sz_def Let_def add_sz_def sub_sz_def kDefaultSize_def max_size_def)

section \<open>The claims\<close>

subsection \<open>C1: resize transparency\<close>

text \<open>
  Within the range of \<open>int\<close> the property of claim C1 holds. On a well-formed object whose
  bucket budget \<open>storage_size * count_threads * 3\<close> is below \<open>2 ^ 31\<close>, \<open>Rehashing\<close>
  returns an object with the same multiset of entries (none lost, none duplicated), with
  unique keys and the same size counter, on which \<open>Find\<close> and \<open>At\<close> answer for every key
  what they answered before. The same holds when \<open>Insert\<close> of an absent key brings its
  bucket to \<open>kLimitCollisions\<close> entries and calls \<open>Rehashing\<close>: the result is
  \<open>Rehashing\<close> of the object with the new entry appended, it holds exactly the old
  entries and the new one, the size counter is the one \<open>Insert\<close> had already
  incremented, and every other key is found with its old value.
\<close>

theorem resize_transparency:
  fixes m :: "('k, 'v) ConcurrentHashMap"
  assumes "wf hw m" "rehash_fits m"
  shows "(\<exists>m'. Rehashing hw m = Inr m' \<and> wf hw m' \<and>
            mset (entries m') = mset (entries m) \<and> unique_keys m' \<and> Size m' = Size m \<and>
            (\<forall>key. Find m' dflt key = Find m dflt key \<and> At m' key = At m key)) \<and>
         (k \<notin> keys m \<and> \<not> length (bucket_of m k @ [(k, v)]) < kLimitCollisions \<longrightarrow>
            (\<exists>m'. Insert hw m k v = Inr (True, m') \<and> Rehashing hw (appended m k v) = Inr m' \<and>
               wf hw m' \<and> mset (entries m') = add_mset (k, v) (mset (entries m)) \<and>
               unique_keys m' \<and> Size m' = Size (appended m k v) \<and>
               (\<forall>key. key \<noteq> k \<longrightarrow> Find m' dflt key = Find m dflt key \<and> At m' key = At m key)))"
proof (intro conjI impI)
  from Rehashing_wf [OF assms] obtain m' where
    m': "Rehashing hw m = Inr m'" "wf hw m'" "mset (entries m') = mset (entries m)"
      "size_m m' = size_m m"
    by blast
  from Rehashing_lookup [OF assms(1) m'(2,3)] m' wf_D(7) [OF m'(2)]
  show "\<exists>m'. Rehashing hw m = Inr m' \<and> wf hw m' \<and>
            mset (entries m') = mset (entries m) \<and> unique_keys m' \<and> Size m' = Size m \<and>
            (\<forall>key. Find m' dflt key = Find m dflt key \<and> At m' key = At m key)"
    by (intro exI [of _ m']) (simp add: Size_def)
next
  assume a: "k \<notin> keys m \<and> \<not> length (bucket_of m k @ [(k, v)]) < kLimitCollisions"
  then have absent: "k \<notin> keys m" by simp
  define m1 where "m1 = appended m k v"
  have w1: "wf hw m1" and e1: "mset (entries m1) = add_mset (k, v) (mset (entries m))"
    unfolding m1_def using appended_wf [OF assms(1) absent] by simp_all
  have f1: "rehash_fits m1" using assms(2) by (simp add: m1_def appended_fields)
  from Rehashing_wf [OF w1 f1] obtain m' where
    m': "Rehashing hw m1 = Inr m'" "wf hw m'" "mset (entries m') = mset (entries m1)"
      "size_m m' = size_m m1"
    by blast
  have ins: "Insert hw m k v = Inr (True, m')"
    using Insert_triggers_Rehashing [OF assms(1), of k v] a m'(1) by (simp add: m1_def)
  have others: "Find m' dflt key = Find m dflt key \<and> At m' key = At m key" if "key \<noteq> k" for key
  proof -
    have "map_of (entries m') = map_of ((k, v) # entries m)"
      using wf_D(7) [OF m'(2)] m'(3) e1 unfolding unique_keys_def
      by (intro map_of_mset) simp_all
    then have "map_of (entries m') key = map_of (entries m) key" using that by simp
    then show ?thesis
      by (simp add: Find_wf [OF assms(1)] Find_wf [OF m'(2)] At_wf [OF assms(1)] At_wf [OF m'(2)])
  qed
  from ins m' e1 wf_D(7) [OF m'(2)] others
  show "\<exists>m'. Insert hw m k v = Inr (True, m') \<and> Rehashing hw (appended m k v) = Inr m' \<and>
               wf hw m' \<and> mset (entries m') = add_mset (k, v) (mset (entries m)) \<and>
               unique_keys m' \<and> Size m' = Size (appended m k v) \<and>
               (\<forall>key. key \<noteq> k \<longrightarrow> Find m' dflt key = Find m dflt key \<and> At m' key = At m key)"
    by (intro exI [of _ m']) (simp add: Size_def m1_def)
qed

text \<open>
  An instance in which the 25th entry of a bucket makes \<open>Insert\<close> call \<open>Rehashing\<close>.
\<close>

theorem resize_transparency_witness:
  "wf 1 crowded \<and> rehash_fits crowded \<and> 24 \<notin> keys crowded \<and>
   \<not> length (bucket_of crowded 24 @ [(24, 240)]) < kLimitCollisions \<and>
   (\<exists>m'. Insert 1 crowded 24 240 = Inr (True, m') \<and>
      Rehashing 1 (appended crowded 24 240) = Inr m' \<and>
      Find m' 0 3 = Inr (True, 30) \<and> Find m' 0 24 = Inr (True, 240) \<and> Size m' = 25)"
proof -
  have a: "24 \<notin> keys crowded" by (simp add: crowded_keys)
  have b: "\<not> length (bucket_of crowded 24 @ [(24, 240)]) < kLimitCollisions"
    by (simp add: crowded_bucket kLimitCollisions_def)
  from resize_transparency [OF crowded_wf crowded_fits, of 0 24 240] a b obtain m' where
    m': "Insert 1 crowded 24 240 = Inr (True, m')" "Rehashing 1 (appended crowded 24 240) = Inr m'"
      "wf 1 m'" "mset (entries m') = add_mset (24, 240) (mset (entries crowded))"
      "Size m' = Size (appended crowded 24 240)" "Find m' 0 3 = Find crowded 0 3"
    by auto
  have "(3, 30) \<in> set (entries crowded)" unfolding crowded_entries by (simp del: upt_Suc)
  then have 1: "Find crowded 0 3 = Inr (True, 30)" using crowded_wf by (simp add: Find_present)
  have "(24, 240) \<in> set_mset (mset (entries m'))" unfolding m'(4) by simp
  then have "(24, 240) \<in> set (entries m')" by simp
  then have 2: "Find m' 0 24 = Inr (True, 240)" using m'(3) by (simp add: Find_present)
  have 3: "Size (appended crowded 24 240) = 25"
    by (simp add: Size_def appended_fields add_sz_def crowded_def)
  from m' 1 2 3 a b crowded_wf crowded_fits show ?thesis by simp
qed

text \<open>
  Claim C1 (resize transparency: every key present before a resize is found afterwards
  with its value). The code breaks it where the bucket budget does not fit \<open>int\<close>.
  \<open>ConcurrentHashMap(1431655766, 1, far_hash)\<close> has one shard of 1431655766 buckets;
  \<open>Insert(1, 10)\<close> puts key 1, whose hash is 4294967303, into bucket 5, and \<open>Find(1)\<close>
  yields \<open>(true, 10)\<close>. \<open>Rehashing\<close> passes the budget \<open>4294967298 = 2 ^ 32 + 2\<close> for
  an \<open>int\<close>, where it is 2, so the new storage has 29 buckets and the entry moves to
  bucket \<open>4294967303 mod 29 = 23\<close>, while \<open>storage_size_\<close> becomes 4294967298. After
  the resize \<open>Find(1)\<close> scans bucket \<open>4294967303 mod 4294967298 = 5\<close> and yields
  \<open>(false, V())\<close>, and \<open>At(1)\<close> throws.
\<close>

theorem resize_beyond_int_loses_lookup:
  "ConcurrentHashMap_sized_threads 8 1431655766 1 far_hash = Inr wide \<and>
   (\<exists>m1 m'. Insert 8 wide 1 10 = Inr (True, m1) \<and> Find m1 0 1 = Inr (True, 10) \<and>
      Rehashing 8 m1 = Inr m' \<and> Find m' 0 1 = Inr (False, 0) \<and> At m' 1 = Inl OutOfRange)"
proof -
  have w: "wf 8 (filled (Suc 0))" using filled_wf [of "Suc 0"] by simp
  have f: "Find (filled (Suc 0)) 0 1 = Inr (True, 10)"
    using w by (intro Find_present) (simp_all add: filled_1)
  from filled_Rehashing [of "Suc 0"] obtain new where
    new: "shape 1 29 new" "addressed far_hash 1 29 new"
    and run: "Rehashing 8 (filled (Suc 0)) = Inr (filled (Suc 0)\<lparr>storage := new, storage_size := 4294967298\<rparr>)"
    by auto
  define m' where "m' = filled (Suc 0)\<lparr>storage := new, storage_size := 4294967298\<rparr>"
  have m': "count_threads m' = 1" "storage_size m' = 4294967298" "hash_function m' = far_hash"
    "storage m' = new"
    by (simp_all add: m'_def filled_fields)
  have k: "key_index 1 (new ! 0 ! 5) = None"
    by (rule resized_bucket(4) [OF new m']) (simp add: far_hash_def)
  have "Find m' 0 1 = Inr (False, 0)"
    unfolding Find_def by (simp only: resized_bucket(1-3) [OF new m'] sum.case k option.case)
  moreover have "At m' 1 = Inl OutOfRange"
    unfolding At_def by (simp only: resized_bucket(1-3) [OF new m'] sum.case k option.case)
  ultimately have "Insert 8 wide 1 10 = Inr (True, filled (Suc 0)) \<and>
      Find (filled (Suc 0)) 0 1 = Inr (True, 10) \<and>
      Rehashing 8 (filled (Suc 0)) = Inr m' \<and> Find m' 0 1 = Inr (False, 0) \<and>
      At m' 1 = Inl OutOfRange"
    using wide_insert f run by (simp add: m'_def)
  then show ?thesis using wide_constructed by blast
qed

subsection \<open>C2: uniqueness of keys\<close>

text \<open>
  Within the range of \<open>int\<close> the property of claim C2 holds. Start from an object that one
  of the three constructors returns, with a positive hardware hint, and apply any finite
  list of \<open>Insert\<close>, \<open>Erase\<close>, \<open>Find\<close>, \<open>At\<close>, \<open>Clear\<close> and \<open>Rehashing\<close> calls such
  that at every object passed through the bucket budget
  \<open>storage_size * count_threads * 3\<close> is below \<open>2 ^ 31\<close>. Then every call returns (the
  trace has one object more than there are calls), and in every object of the trace each
  key occurs at most once in the whole storage.
\<close>

theorem uniqueness_invariant:
  fixes m0 :: "('k, 'v) ConcurrentHashMap"
  assumes "0 < sint hw" "constructed hw m0" "list_all rehash_fits (trace hw dflt xs m0)"
  shows "length (trace hw dflt xs m0) = Suc (length xs) \<and>
         list_all unique_keys (trace hw dflt xs m0)"
proof -
  have "wf hw m0" using assms(1,2) by (rule constructed_wf)
  moreover have "\<forall>s \<in> set (trace hw dflt xs m0). rehash_fits s"
    using assms(3) by (simp add: list_all_iff)
  ultimately have "length (trace hw dflt xs m0) = Suc (length xs) \<and>
         (\<forall>s \<in> set (trace hw dflt xs m0). wf hw s)"
    by (rule trace_wf)
  then show ?thesis by (simp add: list_all_iff wf_def)
qed

theorem uniqueness_invariant_witness:
  "0 < sint (1 :: c_int) \<and>
   constructed 1 (ConcurrentHashMap_default 1 (\<lambda>k::nat. k) :: (nat, nat) ConcurrentHashMap) \<and>
   list_all rehash_fits
     (trace 1 (0::nat) [OpInsert (5::nat) (7::nat), OpInsert 5 9, OpFind 5, OpAt 6, OpErase 5]
        (ConcurrentHashMap_default 1 (\<lambda>k::nat. k))) \<and>
   length (trace 1 (0::nat) [OpInsert (5::nat) (7::nat), OpInsert 5 9, OpFind 5, OpAt 6, OpErase 5]
        (ConcurrentHashMap_default 1 (\<lambda>k::nat. k))) = 6 \<and>
   list_all unique_keys
     (trace 1 (0::nat) [OpInsert (5::nat) (7::nat), OpInsert 5 9, OpFind 5, OpAt 6, OpErase 5]
        (ConcurrentHashMap_default 1 (\<lambda>k::nat. k)))"
proof -
  let ?m0 = "ConcurrentHashMap_default 1 (\<lambda>k::nat. k) :: (nat, nat) ConcurrentHashMap"
  let ?m1 = "appended ?m0 5 7"
  let ?xs = "[OpInsert 5 7, OpInsert 5 9, OpFind 5, OpAt 6, OpErase 5] :: (nat, nat) operation list"
  from example_erase obtain m2 where
    m2: "Erase ?m1 5 = Inr (True, m2)" "rehash_fits m2" by blast
  have 1: "apply_op 1 0 (OpInsert 5 7) ?m0 = Inr ?m1" by (simp add: example_insert)
  have 2: "apply_op 1 0 (OpInsert 5 9) ?m1 = Inr ?m1"
    by (simp add: Insert_present [OF example_appended(1)] example_appended(2))
  have 3: "apply_op 1 0 (OpFind 5) ?m1 = Inr ?m1"
    by (simp add: Find_wf [OF example_appended(1)])
  have 4: "apply_op 1 0 (OpAt 6) ?m1 = Inr ?m1"
    by (simp add: At_absent [OF example_appended(1)] example_appended(2))
  have 5: "apply_op 1 0 (OpErase 5) ?m1 = Inr m2" by (simp add: m2(1))
  have tr: "trace 1 0 ?xs ?m0 = [?m0, ?m1, ?m1, ?m1, ?m1, m2]"
    by (simp only: trace_step [OF 1] trace_step [OF 2] trace_step [OF 3] trace_step [OF 4]
          trace_step [OF 5] trace.simps(1))
  have fits: "list_all rehash_fits (trace 1 0 ?xs ?m0)"
    unfolding tr using example_fits example_appended(4) m2(2) by simp
  have h: "0 < sint (1 :: c_int)" by simp
  from uniqueness_invariant [OF h example_constructed fits] h example_constructed fits
  show ?thesis by simp
qed

text \<open>
  Claim C2 (uniqueness: after any sequence of operations on a freshly constructed map each
  key occurs in at most one slot). The code breaks it where the bucket budget does not
  fit \<open>int\<close>. On \<open>ConcurrentHashMap(1431655766, 1, far_hash)\<close> the calls
  \<open>Insert(1, 10)\<close>, \<open>Rehashing()\<close>, \<open>Insert(1, 20)\<close> all return: the resize leaves key 1
  in bucket 23 of 29 while \<open>storage_size_\<close> is 4294967298, the second \<open>Insert\<close> scans
  bucket 5, does not find the key and appends it again. The map then holds the entries
  \<open>(1, 10)\<close> and \<open>(1, 20)\<close>.
\<close>

theorem uniqueness_beyond_int:
  "ConcurrentHashMap_sized_threads 8 1431655766 1 far_hash = Inr wide \<and>
   (\<exists>m'. run 8 0 [OpInsert 1 10, OpRehash, OpInsert 1 20] wide = Inr m' \<and>
      mset (entries m') = {#(1, 10), (1, 20)#} \<and> \<not> unique_keys m')"
proof -
  from filled_Rehashing [of "Suc 0"] obtain new where
    new: "shape 1 29 new" "addressed far_hash 1 29 new"
    and ent: "mset (concat (map concat new)) = mset (entries (filled (Suc 0)))"
    and run: "Rehashing 8 (filled (Suc 0)) = Inr (filled (Suc 0)\<lparr>storage := new, storage_size := 4294967298\<rparr>)"
    by auto
  define m' where "m' = filled (Suc 0)\<lparr>storage := new, storage_size := 4294967298\<rparr>"
  have m': "count_threads m' = 1" "storage_size m' = 4294967298" "hash_function m' = far_hash"
    "storage m' = new"
    by (simp_all add: m'_def filled_fields)
  have k: "key_index 1 (new ! 0 ! 5) = None"
    by (rule resized_bucket(4) [OF new m']) (simp add: far_hash_def)
  have "set (new ! 0 ! 5) \<subseteq> {(1, 10)}"
    using resized_bucket(5) [OF new m'] mset_eq_setD [OF ent] by (simp add: filled_1)
  moreover have "(1, 10) \<notin> set (new ! 0 ! 5)"
    using k by (force simp: key_index_None)
  ultimately have b: "new ! 0 ! 5 = []" by (cases "new ! 0 ! 5") auto
  define m2 where "m2 = m'\<lparr>size_m := add_sz (size_m m') 1,
                            storage := set_bucket new 0 5 [(1, 20)]\<rparr>"
  have ins: "Insert 8 m' 1 20 = Inr (True, m2)"
    unfolding Insert_def
    by (simp only: resized_bucket(1-3) [OF new m'] sum.case k option.case Let_def)
       (simp add: kLimitCollisions_def b m2_def m'(4))
  have l: "0 < length new" "5 < length (new ! 0)"
    using new(1) shape_nth [OF new(1), of 0] by (simp_all add: shape_length)
  from mset_entries_set_bucket [OF l, of "[(1, 20)]"]
  have e2: "mset (entries m2) = {#(1, 10), (1, 20)#}"
    by (simp add: m2_def entries_def b ent [unfolded entries_def] filled_1 [unfolded entries_def])
  then have "mset (map fst (entries m2)) = mset [1, 1]" by simp
  from mset_eq_imp_distinct_iff [OF this] have u: "\<not> unique_keys m2"
    by (simp add: unique_keys_def)
  have 1: "apply_op 8 0 (OpInsert 1 10) wide = Inr (filled (Suc 0))" using wide_insert by simp
  have 2: "apply_op 8 0 OpRehash (filled (Suc 0)) = Inr m'" using run by (simp add: m'_def)
  have 3: "apply_op 8 0 (OpInsert 1 20) m' = Inr m2" using ins by simp
  have "run 8 0 [OpInsert 1 10, OpRehash, OpInsert 1 20] wide = Inr m2"
    by (simp only: run_step [OF 1] run_step [OF 2] run_step [OF 3] run.simps(1))
  with e2 u wide_constructed show ?thesis by blast
qed

subsection \<open>C3: Insert does not overwrite\<close>

text \<open>
  Within the range of \<open>int\<close> the property of claim C3 holds. On every well-formed object,
  \<open>Insert\<close> of a key that is present returns \<open>false\<close> and returns the object unchanged:
  the stored value, every other entry and the size counter are as before. \<open>Insert\<close> of
  a key that is not present returns \<open>true\<close>, provided the bucket budget
  \<open>storage_size * count_threads * 3\<close> of the resize it may call is below \<open>2 ^ 31\<close>.
\<close>

theorem Insert_no_overwrite:
  fixes m :: "('k, 'v) ConcurrentHashMap"
  assumes "wf hw m"
  shows "(k \<in> keys m \<longrightarrow> Insert hw m k v = Inr (False, m)) \<and>
         (k \<notin> keys m \<longrightarrow> rehash_fits m \<longrightarrow> (\<exists>m'. Insert hw m k v = Inr (True, m')))"
  using Insert_present [OF assms] Insert_absent_total [OF assms] by blast

theorem Insert_no_overwrite_witness:
  "wf 1 (appended (ConcurrentHashMap_default 1 (\<lambda>k::nat. k)) 5 (7::nat)) \<and>
   5 \<in> keys (appended (ConcurrentHashMap_default 1 (\<lambda>k::nat. k)) 5 (7::nat)) \<and>
   Insert 1 (appended (ConcurrentHashMap_default 1 (\<lambda>k::nat. k)) 5 (7::nat)) 5 9 =
     Inr (False, appended (ConcurrentHashMap_default 1 (\<lambda>k::nat. k)) 5 (7::nat)) \<and>
   6 \<notin> keys (appended (ConcurrentHashMap_default 1 (\<lambda>k::nat. k)) 5 (7::nat)) \<and>
   rehash_fits (appended (ConcurrentHashMap_default 1 (\<lambda>k::nat. k)) 5 (7::nat)) \<and>
   (\<exists>m'. Insert 1 (appended (ConcurrentHashMap_default 1 (\<lambda>k::nat. k)) 5 (7::nat)) 6 9 =
     Inr (True, m'))"
proof -
  let ?m0 = "ConcurrentHashMap_default 1 (\<lambda>k::nat. k) :: (nat, nat) ConcurrentHashMap"
  have a: "5 \<notin> keys ?m0" by (simp add: example_keys)
  have w: "wf 1 (appended ?m0 5 7)" using example_wf a by (rule appended_wf(1))
  have k: "keys (appended ?m0 5 7) = {5}"
    using keys_appended [OF example_wf a, of 7] by (simp add: example_keys)
  have f: "rehash_fits (appended ?m0 5 7)" by (rule example_appended(4))
  from Insert_no_overwrite [OF w, of 5 9] Insert_no_overwrite [OF w, of 6 9] w k f
  show ?thesis by simp
qed

text \<open>
  Claim C3 (Insert does not overwrite: for every map state, \<open>Insert\<close> of a key that is
  present returns \<open>false\<close> and changes nothing). The code breaks it where the bucket
  budget does not fit \<open>int\<close>. On \<open>ConcurrentHashMap(1431655766, 1, far_hash)\<close>, after
  \<open>Insert(1, 10)\<close> and \<open>Rehashing()\<close> the entry \<open>(1, 10)\<close> is stored (in bucket 23 of
  29) and the size is 1, while \<open>storage_size_\<close> is 4294967298. \<open>Insert(1, 20)\<close> scans
  bucket 5, which is empty, returns \<open>true\<close> and changes the object: the size becomes 2
  and a second entry for key 1 is stored.
\<close>

theorem Insert_present_key_beyond_int:
  "ConcurrentHashMap_sized_threads 8 1431655766 1 far_hash = Inr wide \<and>
   (\<exists>m1 m' m2. Insert 8 wide 1 10 = Inr (True, m1) \<and> Rehashing 8 m1 = Inr m' \<and>
      (1, 10) \<in> set (entries m') \<and> Size m' = 1 \<and>
      Insert 8 m' 1 20 = Inr (True, m2) \<and> Size m2 = 2 \<and>
      (1, 20) \<in> set (entries m2) \<and> m2 \<noteq> m')"
proof -
  from wide_resized obtain new where
    new: "shape 1 29 new" "addressed far_hash 1 29 new"
    and ent: "mset (concat (map concat new)) = {#(Suc 0, 10)#}"
    and b: "new ! 0 ! 5 = []"
    and run: "Rehashing 8 (filled (Suc 0)) =
                Inr (filled (Suc 0)\<lparr>storage := new, storage_size := 4294967298\<rparr>)"
    by blast
  define m' where "m' = filled (Suc 0)\<lparr>storage := new, storage_size := 4294967298\<rparr>"
  have m': "count_threads m' = 1" "storage_size m' = 4294967298" "hash_function m' = far_hash"
    "storage m' = new"
    by (simp_all add: m'_def filled_fields)
  have sz: "Size m' = 1" using filled_size [of "Suc 0"] by (simp add: Size_def m'_def)
  have "set_mset (mset (entries m')) = {(1, 10)}" by (simp add: entries_def m'(4) ent)
  then have pres: "(1, 10) \<in> set (entries m')" by simp
  have k: "key_index 1 (new ! 0 ! 5) = None" by (simp add: b)
  define m2 where "m2 = m'\<lparr>size_m := add_sz (size_m m') 1,
                            storage := set_bucket new 0 5 [(1, 20)]\<rparr>"
  have ins: "Insert 8 m' 1 20 = Inr (True, m2)"
    unfolding Insert_def
    by (simp only: resized_bucket(1-3) [OF new m'] sum.case k option.case Let_def)
       (simp add: kLimitCollisions_def b m2_def m'(4))
  have sz2: "Size m2 = 2" using sz by (simp add: Size_def m2_def add_sz_def)
  have l: "0 < length new" "5 < length (new ! 0)"
    using new(1) shape_nth [OF new(1), of 0] by (simp_all add: shape_length)
  from mset_entries_set_bucket [OF l, of "[(1, 20)]"]
  have "mset (entries m2) = {#(1, 10), (1, 20)#}"
    by (simp add: m2_def entries_def b ent)
  then have "set_mset (mset (entries m2)) = {(1, 10), (1, 20)}" by simp
  then have pres2: "(1, 20) \<in> set (entries m2)" by simp
  have ne: "m2 \<noteq> m'" using sz sz2 by auto
  from wide_insert run have "Insert 8 wide 1 10 = Inr (True, filled (Suc 0))"
    "Rehashing 8 (filled (Suc 0)) = Inr m'"
    by (simp_all add: m'_def)
  with pres sz ins sz2 pres2 ne wide_constructed show ?thesis by blast
qed

subsection \<open>C4: insert, then find\<close>

text \<open>
  Claim C4, as amended (insert, then find). On a well-formed object whose bucket budget
  \<open>storage_size * count_threads * 3\<close> is below \<open>2 ^ 31\<close>, \<open>Insert(k, v)\<close> returns; when
  \<open>k\<close> was not present it returns \<open>true\<close> and \<open>Find(k)\<close> on the result yields
  \<open>(true, v)\<close>; when \<open>k\<close> was present with value \<open>v0\<close> it returns \<open>false\<close>, leaves the
  object as it was, and \<open>Find(k)\<close> yields \<open>(true, v0)\<close>.
\<close>

theorem insert_find_round_trip:
  fixes m :: "('k, 'v) ConcurrentHashMap"
  assumes "wf hw m" "rehash_fits m"
  shows "\<exists>b m'. Insert hw m k v = Inr (b, m') \<and>
           (k \<notin> keys m \<longrightarrow> b \<and> Find m' dflt k = Inr (True, v)) \<and>
           (\<forall>v0. (k, v0) \<in> set (entries m) \<longrightarrow>
              \<not> b \<and> m' = m \<and> Find m' dflt k = Inr (True, v0))"
proof (cases "k \<in> keys m")
  case True
  then have "Insert hw m k v = Inr (False, m)" using assms(1) by (rule Insert_present [rotated])
  then show ?thesis using True Find_present [OF assms(1)] by auto
next
  case False
  from Insert_absent [OF assms False, of v] obtain m' where
    m': "Insert hw m k v = Inr (True, m')" "wf hw m'"
      "mset (entries m') = add_mset (k, v) (mset (entries m))"
    by blast
  have "(k, v) \<in> set_mset (mset (entries m'))" unfolding m'(3) by simp
  then have "(k, v) \<in> set (entries m')" by simp
  then have "Find m' dflt k = Inr (True, v)" using m'(2) by (simp add: Find_present)
  moreover have "\<forall>v0. (k, v0) \<notin> set (entries m)" using False by (force simp: keys_def)
  ultimately show ?thesis using m'(1) False by auto
qed

theorem insert_find_round_trip_witness:
  "wf 1 crowded \<and> rehash_fits crowded \<and> 24 \<notin> keys crowded \<and> (3, 30) \<in> set (entries crowded) \<and>
   (\<exists>m'. Insert 1 crowded 24 240 = Inr (True, m') \<and> Find m' 0 24 = Inr (True, 240)) \<and>
   Insert 1 crowded 3 99 = Inr (False, crowded) \<and> Find crowded 0 3 = Inr (True, 30)"
proof -
  have a: "24 \<notin> keys crowded" by (simp add: crowded_keys)
  have b: "(3, 30) \<in> set (entries crowded)" unfolding crowded_entries by (simp del: upt_Suc)
  from insert_find_round_trip [OF crowded_wf crowded_fits, of 24 240 0] a
  have 1: "\<exists>m'. Insert 1 crowded 24 240 = Inr (True, m') \<and> Find m' 0 24 = Inr (True, 240)"
    by auto
  from insert_find_round_trip [OF crowded_wf crowded_fits, of 3 99 0] b
  have 2: "Insert 1 crowded 3 99 = Inr (False, crowded) \<and> Find crowded 0 3 = Inr (True, 30)"
    by auto
  from 1 2 a b crowded_wf crowded_fits show ?thesis by simp
qed

text \<open>
  The claim as first stated fails for a key that is already present with another
  value: on a default-constructed map with one shard and the identity hash,
  \<open>Insert(5, 7)\<close> returns \<open>true\<close>, \<open>Insert(5, 9)\<close> then returns \<open>false\<close> without
  overwriting, and \<open>Find(5)\<close> yields \<open>(true, 7)\<close>, not \<open>(true, 9)\<close>.
\<close>

theorem insert_find_round_trip_counterexample:
  "Insert 1 (ConcurrentHashMap_default 1 (\<lambda>k::nat. k)) 5 (7::nat)
     = Inr (True, appended (ConcurrentHashMap_default 1 (\<lambda>k::nat. k)) 5 7) \<and>
   Insert 1 (appended (ConcurrentHashMap_default 1 (\<lambda>k::nat. k)) 5 (7::nat)) 5 9
     = Inr (False, appended (ConcurrentHashMap_default 1 (\<lambda>k::nat. k)) 5 7) \<and>
   Find (appended (ConcurrentHashMap_default 1 (\<lambda>k::nat. k)) 5 (7::nat)) 0 5 = Inr (True, 7) \<and>
   Find (appended (ConcurrentHashMap_default 1 (\<lambda>k::nat. k)) 5 (7::nat)) 0 5 \<noteq> Inr (True, 9)"
proof -
  let ?m0 = "ConcurrentHashMap_default 1 (\<lambda>k::nat. k) :: (nat, nat) ConcurrentHashMap"
  have a: "5 \<notin> keys ?m0" by (simp add: example_keys)
  have w: "wf 1 (appended ?m0 5 7)" using example_wf a by (rule appended_wf(1))
  have k: "keys (appended ?m0 5 7) = {5}"
    using keys_appended [OF example_wf a, of 7] by (simp add: example_keys)
  have e: "(5, 7) \<in> set (entries (appended ?m0 5 7))"
    using entries_appended [OF example_wf a, of 7] by simp
  have "bucket_of ?m0 5 = []"
    by (simp add: bucket_of_def ConcurrentHashMap_default_def size_t_of_int_def kDefaultSize_def)
  then have 1: "Insert 1 ?m0 5 7 = Inr (True, appended ?m0 5 7)"
    using a by (simp add: Insert_unfold [OF example_wf] kLimitCollisions_def)
  have 2: "Insert 1 (appended ?m0 5 7) 5 9 = Inr (False, appended ?m0 5 7)"
    using w k by (simp add: Insert_present)
  have 3: "Find (appended ?m0 5 7) 0 5 = Inr (True, 7)" using w e by (rule Find_present)
  from 1 2 3 show ?thesis by simp
qed

subsection \<open>C5: Erase and the size counter\<close>

text \<open>
  Within the range of \<open>int\<close> the property of claim C5 holds. On a well-formed object with
  fewer than \<open>2 ^ 64\<close> entries, \<open>Erase\<close> of an absent key returns \<open>false\<close> and the object
  unchanged; \<open>Erase\<close> of a present key returns \<open>true\<close>, the key is gone, every other key
  stays, and the size is smaller by exactly 1. From a constructed object, a run of fewer
  than \<open>2 ^ 64\<close> calls that inserts only keys never inserted before and erases only keys
  that are present, with the bucket budget below \<open>2 ^ 31\<close> at every object passed
  through, returns an object whose size is the number of inserts minus the number of
  erases.
\<close>

theorem erase_and_size_accounting:
  fixes m m0 :: "('k, 'v) ConcurrentHashMap"
  shows "(wf hw m \<and> length (entries m) < 2 ^ 64 \<longrightarrow>
            (k \<notin> keys m \<longrightarrow> Erase m k = Inr (False, m)) \<and>
            (k \<in> keys m \<longrightarrow>
               (\<exists>m'. Erase m k = Inr (True, m') \<and> k \<notin> keys m' \<and> keys m' = keys m - {k} \<and>
                  Size m = Size m' + 1))) \<and>
         (0 < sint hw \<and> constructed hw m0 \<and> inserts_distinct_erases_present [] [] xs \<and>
          list_all rehash_fits (trace hw dflt xs m0) \<and> length xs < 2 ^ 64 \<longrightarrow>
            (\<exists>m'. run hw dflt xs m0 = Inr m' \<and> Size m' = count_inserts xs - count_erases xs))"
proof (intro conjI impI)
  assume a: "wf hw m \<and> length (entries m) < 2 ^ 64"
  then have w: "wf hw m" and l: "length (entries m) < 2 ^ 64" by simp_all
  {
    assume "k \<notin> keys m"
    with w show "Erase m k = Inr (False, m)" by (rule Erase_absent)
  }
  {
    assume present: "k \<in> keys m"
    from Erase_present [OF w present] obtain m' v where
      m': "Erase m k = Inr (True, m')" "wf hw m'" "(k, v) \<in> set (entries m)"
        "mset (entries m') = mset (entries m) - {#(k, v)#}"
      by blast
    from keys_erased [OF wf_D(7) [OF w] m'(3,4)]
    have ks: "keys m' = keys m - {k}" and len: "length (entries m) = Suc (length (entries m'))"
      by simp_all
    from len l have l': "length (entries m') < 2 ^ 64" by simp
    have "Size m = Size m' + 1"
      using Size_exact [OF w l] Size_exact [OF m'(2) l'] len by simp
    with m'(1) ks show "\<exists>m'. Erase m k = Inr (True, m') \<and> k \<notin> keys m' \<and>
        keys m' = keys m - {k} \<and> Size m = Size m' + 1"
      by auto
  }
next
  assume a: "0 < sint hw \<and> constructed hw m0 \<and> inserts_distinct_erases_present [] [] xs \<and>
          list_all rehash_fits (trace hw dflt xs m0) \<and> length xs < 2 ^ 64"
  then have c: "constructed hw m0" and hw: "0 < sint hw" by simp_all
  from hw c have w: "wf hw m0" by (rule constructed_wf)
  from c have e: "entries m0 = []" by (rule constructed_empty)
  then have k: "keys m0 = set []" by (simp add: keys_def)
  from a have mix: "inserts_distinct_erases_present [] [] xs"
    and fits: "list_all rehash_fits (trace hw dflt xs m0)" and len: "length xs < 2 ^ 64"
    by simp_all
  from mixture_run [OF w k _ mix fits] obtain m' where
    m': "run hw dflt xs m0 = Inr m'" "wf hw m'"
      "length (entries m') + count_erases xs = length (entries m0) + count_inserts xs"
    by auto
  from m'(3) e have n: "length (entries m') = count_inserts xs - count_erases xs" by simp
  have "count_inserts xs - count_erases xs \<le> length xs"
    using count_inserts_le [of xs] by simp
  with n len have "length (entries m') < 2 ^ 64" by simp
  from Size_exact [OF m'(2) this] n m'(1)
  show "\<exists>m'. run hw dflt xs m0 = Inr m' \<and> Size m' = count_inserts xs - count_erases xs"
    by simp
qed

theorem erase_and_size_accounting_witness:
  "wf 1 (appended (ConcurrentHashMap_default 1 (\<lambda>k::nat. k)) 5 (7::nat)) \<and>
   length (entries (appended (ConcurrentHashMap_default 1 (\<lambda>k::nat. k)) 5 (7::nat))) < 2 ^ 64 \<and>
   5 \<in> keys (appended (ConcurrentHashMap_default 1 (\<lambda>k::nat. k)) 5 (7::nat)) \<and>
   6 \<notin> keys (appended (ConcurrentHashMap_default 1 (\<lambda>k::nat. k)) 5 (7::nat)) \<and>
   Erase (appended (ConcurrentHashMap_default 1 (\<lambda>k::nat. k)) 5 (7::nat)) 6
     = Inr (False, appended (ConcurrentHashMap_default 1 (\<lambda>k::nat. k)) 5 (7::nat)) \<and>
   (\<exists>m'. Erase (appended (ConcurrentHashMap_default 1 (\<lambda>k::nat. k)) 5 (7::nat)) 5
            = Inr (True, m') \<and>
         5 \<notin> keys m' \<and>
         Size (appended (ConcurrentHashMap_default 1 (\<lambda>k::nat. k)) 5 (7::nat)) = Size m' + 1) \<and>
   0 < sint (1 :: c_int) \<and>
   constructed 1 (ConcurrentHashMap_default 1 (\<lambda>k::nat. k) :: (nat, nat) ConcurrentHashMap) \<and>
   inserts_distinct_erases_present [] [] [OpInsert (5::nat) (7::nat), OpErase 5] \<and>
   list_all rehash_fits
     (trace 1 (0::nat) [OpInsert (5::nat) (7::nat), OpErase 5]
        (ConcurrentHashMap_default 1 (\<lambda>k::nat. k))) \<and>
   (\<exists>m'. run 1 (0::nat) [OpInsert (5::nat) (7::nat), OpErase 5]
            (ConcurrentHashMap_default 1 (\<lambda>k::nat. k)) = Inr m' \<and>
         Size m' = 0)"
proof -
  let ?m0 = "ConcurrentHashMap_default 1 (\<lambda>k::nat. k) :: (nat, nat) ConcurrentHashMap"
  let ?m1 = "appended ?m0 5 7"
  let ?xs = "[OpInsert 5 7, OpErase 5] :: (nat, nat) operation list"
  from example_erase obtain m2 where
    m2: "Erase ?m1 5 = Inr (True, m2)" "rehash_fits m2" by blast
  have 1: "apply_op 1 0 (OpInsert 5 7) ?m0 = Inr ?m1" by (simp add: example_insert)
  have 2: "apply_op 1 0 (OpErase 5) ?m1 = Inr m2" by (simp add: m2(1))
  have tr: "trace 1 0 ?xs ?m0 = [?m0, ?m1, m2]"
    by (simp only: trace_step [OF 1] trace_step [OF 2] trace.simps(1))
  have fits: "list_all rehash_fits (trace 1 0 ?xs ?m0)"
    unfolding tr using example_fits example_appended(4) m2(2) by simp
  have h: "0 < sint (1 :: c_int)" by simp
  have mix: "inserts_distinct_erases_present [] [] ?xs" by simp
  have w: "wf 1 ?m1" by (rule example_appended(1))
  have l: "length (entries ?m1) < 2 ^ 64" by (simp add: example_appended(3))
  have k: "5 \<in> keys ?m1" "6 \<notin> keys ?m1" by (simp_all add: example_appended(2))
  note inst = erase_and_size_accounting [of 1 ?m1 _ ?m0 ?xs 0]
  from inst [of 6] w l k(2) have a: "Erase ?m1 6 = Inr (False, ?m1)" by blast
  from inst [of 5] w l k(1) have b: "\<exists>m'. Erase ?m1 5 = Inr (True, m') \<and> 5 \<notin> keys m' \<and>
      Size ?m1 = Size m' + 1" by blast
  from inst [of 5] h example_constructed mix fits
  have c: "\<exists>m'. run 1 0 ?xs ?m0 = Inr m' \<and> Size m' = 0" by simp
  from a b c w l k h example_constructed mix fits show ?thesis by blast
qed

text \<open>
  Claim C5 (erase and size accounting: erasing a present key returns true and takes 1
  from the size, so that N inserts of distinct keys and M erases of inserted keys leave
  \<open>size() = N - M\<close>). The code breaks it where the bucket budget does not fit \<open>int\<close>.
  On \<open>ConcurrentHashMap(1431655766, 1, far_hash)\<close>, insert the keys 1 to 25, which all
  fall into bucket 5; the 25th \<open>Insert\<close> calls \<open>Rehashing\<close>, which leaves 29 buckets and
  \<open>storage_size_ = 4294967298\<close>. \<open>Erase(1)\<close> then scans bucket 5, where key 1 is not
  (it is in bucket 23), and returns \<open>false\<close>: key 1 is still stored and the size is 25
  after 25 inserts and 1 erase.
\<close>

theorem size_accounting_beyond_int:
  "ConcurrentHashMap_sized_threads 8 1431655766 1 far_hash = Inr wide \<and>
   inserts_distinct_erases_present [] []
     (map (\<lambda>i. OpInsert i (10 * i)) [1..<26] @ [OpErase 1]) \<and>
   count_inserts (map (\<lambda>i. OpInsert i (10 * i)) [1..<26] @ [OpErase 1]) = 25 \<and>
   count_erases (map (\<lambda>i. OpInsert i (10 * i)) [1..<26] @ [OpErase 1]) = 1 \<and>
   (\<exists>m'. run 8 0 (map (\<lambda>i. OpInsert i (10 * i)) [1..<26] @ [OpErase 1]) wide = Inr m' \<and>
      1 \<in> keys m' \<and> Erase m' 1 = Inr (False, m') \<and> Size m' = 25)"
proof -
  let ?ops = "map (\<lambda>i. OpInsert i (10 * i)) [1..<26] @ [OpErase 1] :: (nat, nat) operation list"
  have mix: "inserts_distinct_erases_present [] [] ?ops"
    by (subst mixture_inserts) simp_all
  have cnt: "count_inserts ?ops = 25" "count_erases ?ops = 1"
    by (simp_all only: count_inserts_map) simp_all
  have w24: "wf 8 (filled 24)" and k24: "25 \<notin> keys (filled 24)"
    using filled_wf [of 24] by simp_all
  have full: "\<not> length (bucket_of (filled 24) 25 @ [(25, 250)]) < kLimitCollisions"
    by (simp add: filled_bucket kLimitCollisions_def)
  have f25: "appended (filled 24) 25 250 = filled 25"
    using filled.simps(2) [of 24] by simp
  from filled_Rehashing [of 25] obtain new where
    new: "shape 1 29 new" "addressed far_hash 1 29 new"
    and ent: "mset (concat (map concat new)) = mset (entries (filled 25))"
    and reh: "Rehashing 8 (filled 25) = Inr (filled 25\<lparr>storage := new, storage_size := 4294967298\<rparr>)"
    by auto
  define m' where "m' = filled 25\<lparr>storage := new, storage_size := 4294967298\<rparr>"
  have m': "count_threads m' = 1" "storage_size m' = 4294967298" "hash_function m' = far_hash"
    "storage m' = new"
    by (simp_all add: m'_def filled_fields)
  have ins: "Insert 8 (filled 24) 25 250 = Inr (True, m')"
    using Insert_triggers_Rehashing [OF w24 k24 full] reh by (simp add: f25 m'_def)
  have k: "key_index 1 (new ! 0 ! 5) = None"
    by (rule resized_bucket(4) [OF new m']) (simp add: far_hash_def)
  have era: "Erase m' 1 = Inr (False, m')"
    unfolding Erase_def by (simp only: resized_bucket(1-3) [OF new m'] sum.case k option.case)
  have "keys m' = keys (filled 25)"
    using mset_eq_setD [OF ent] by (simp add: keys_def entries_def m'_def)
  then have key: "1 \<in> keys m'" using filled_wf [of 25] by simp
  have sz: "Size m' = 25" using filled_size [of 25] by (simp add: Size_def m'_def)
  have "[1..<Suc 25] = [1..<25] @ [25::nat]" by (rule upt_Suc_append) simp
  moreover have "Suc 25 = 26" "Suc 24 = 25" by simp_all
  ultimately have "[1..<26] = [1..<Suc 24] @ [25]" by (simp only:)
  then have "?ops = map (\<lambda>i. OpInsert i (10 * i)) [1..<Suc 24] @ [OpInsert 25 250, OpErase 1]"
    by simp
  then have "run 8 0 ?ops wide = run 8 0 [OpInsert 25 250, OpErase 1] (filled 24)"
    using run_inserts [of 24 0] by (simp only: run_append sum.case)
  also have "\<dots> = Inr m'" using ins era by simp
  finally show ?thesis using mix cnt key era sz wide_constructed by blast
qed

subsection \<open>C6: absent keys\<close>

text \<open>
  Within the range of \<open>int\<close> the property of claim C6 holds. On every well-formed object,
  \<open>Find\<close> of a key that is not present returns \<open>(false, V())\<close> and does not fail, and
  \<open>At\<close> of such a key fails with \<open>std::out_of_range\<close>; \<open>At\<close> of a present key returns
  the stored value. \<open>At\<close> fails in no other way, and \<open>Find\<close> and \<open>Erase\<close> return
  without an error; so do \<open>Insert\<close> and \<open>Rehashing\<close> when the bucket budget
  \<open>storage_size * count_threads * 3\<close> is below \<open>2 ^ 31\<close> (\<open>Clear\<close> and \<open>Size\<close> have no
  error branch at all).
\<close>

theorem absence_handling:
  fixes m :: "('k, 'v) ConcurrentHashMap"
  assumes "wf hw m"
  shows "(k \<notin> keys m \<longrightarrow> Find m dflt k = Inr (False, dflt) \<and> At m k = Inl OutOfRange) \<and>
         (\<forall>v. (k, v) \<in> set (entries m) \<longrightarrow> At m k = Inr v \<and> Find m dflt k = Inr (True, v)) \<and>
         (\<forall>err. At m k = Inl err \<longrightarrow> err = OutOfRange \<and> k \<notin> keys m) \<and>
         (\<exists>r. Find m dflt k = Inr r) \<and> (\<exists>r. Erase m k = Inr r) \<and>
         (rehash_fits m \<longrightarrow>
            (\<exists>r. Insert hw m k val = Inr r) \<and> (\<exists>m'. Rehashing hw m = Inr m'))"
proof (intro conjI)
  show "k \<notin> keys m \<longrightarrow> Find m dflt k = Inr (False, dflt) \<and> At m k = Inl OutOfRange"
    using Find_absent [OF assms] At_absent [OF assms] by blast
  show "\<forall>v. (k, v) \<in> set (entries m) \<longrightarrow> At m k = Inr v \<and> Find m dflt k = Inr (True, v)"
    using Find_present [OF assms] At_present [OF assms] by blast
  show "\<forall>err. At m k = Inl err \<longrightarrow> err = OutOfRange \<and> k \<notin> keys m"
    by (auto simp: At_wf [OF assms] keys_def map_of_eq_None_iff split: option.splits)
  show "\<exists>r. Find m dflt k = Inr r" by (simp add: Find_wf [OF assms])
  show "\<exists>r. Erase m k = Inr r" by (rule Erase_total [OF assms])
  show "rehash_fits m \<longrightarrow>
          (\<exists>r. Insert hw m k val = Inr r) \<and> (\<exists>m'. Rehashing hw m = Inr m')"
    using Insert_total [OF assms] Rehashing_total [OF assms] by blast
qed

theorem absence_handling_witness:
  "wf 1 (appended (ConcurrentHashMap_default 1 (\<lambda>k::nat. k)) 5 (7::nat)) \<and>
   6 \<notin> keys (appended (ConcurrentHashMap_default 1 (\<lambda>k::nat. k)) 5 (7::nat)) \<and>
   Find (appended (ConcurrentHashMap_default 1 (\<lambda>k::nat. k)) 5 (7::nat)) 0 6 = Inr (False, 0) \<and>
   At (appended (ConcurrentHashMap_default 1 (\<lambda>k::nat. k)) 5 (7::nat)) 6 = Inl OutOfRange \<and>
   (5, 7) \<in> set (entries (appended (ConcurrentHashMap_default 1 (\<lambda>k::nat. k)) 5 (7::nat))) \<and>
   At (appended (ConcurrentHashMap_default 1 (\<lambda>k::nat. k)) 5 (7::nat)) 5 = Inr 7 \<and>
   Find (appended (ConcurrentHashMap_default 1 (\<lambda>k::nat. k)) 5 (7::nat)) 0 5 = Inr (True, 7) \<and>
   rehash_fits (appended (ConcurrentHashMap_default 1 (\<lambda>k::nat. k)) 5 (7::nat)) \<and>
   (\<exists>m'. Rehashing 1 (appended (ConcurrentHashMap_default 1 (\<lambda>k::nat. k)) 5 (7::nat)) = Inr m')"
proof -
  let ?m0 = "ConcurrentHashMap_default 1 (\<lambda>k::nat. k) :: (nat, nat) ConcurrentHashMap"
  have a: "5 \<notin> keys ?m0" by (simp add: example_keys)
  have w: "wf 1 (appended ?m0 5 7)" using example_wf a by (rule appended_wf(1))
  have k: "keys (appended ?m0 5 7) = {5}"
    using keys_appended [OF example_wf a, of 7] by (simp add: example_keys)
  have e: "(5, 7) \<in> set (entries (appended ?m0 5 7))"
    using entries_appended [OF example_wf a, of 7] by simp
  have f: "rehash_fits (appended ?m0 5 7)" by (rule example_appended(4))
  from absence_handling [OF w, of 6 0] absence_handling [OF w, of 5 0] w k e f
  show ?thesis by simp
qed

text \<open>
  Claim C6 (absence handling: for every map state, \<open>At\<close> of a key that is present returns
  the stored value, and the only failure is the \<open>std::out_of_range\<close> of \<open>At\<close> for a
  key that is not present). The code breaks it where the bucket budget does not fit
  \<open>int\<close>. On \<open>ConcurrentHashMap(1431655766, 1, far_hash)\<close>, after \<open>Insert(1, 10)\<close> and
  \<open>Rehashing()\<close> the entry \<open>(1, 10)\<close> is stored in bucket 23 of 29 while
  \<open>storage_size_\<close> is 4294967298, and \<open>At(1)\<close> scans bucket 5 and throws
  \<open>std::out_of_range\<close> for a key that is present. On
  \<open>ConcurrentHashMap(715827883, 1, far_hash)\<close> the budget is \<open>2147483649 = 2 ^ 31 + 1\<close>,
  which is \<open>-2147483647\<close> as an \<open>int\<close>; the constructor called by \<open>Rehashing\<close> converts
  it back to \<open>size_t\<close>, asks for \<open>2 ^ 64 - 2147483647\<close> buckets and throws
  \<open>std::length_error\<close>: an operation other than \<open>At\<close> fails.
\<close>

theorem absence_beyond_int:
  "ConcurrentHashMap_sized_threads 8 1431655766 1 far_hash = Inr wide \<and>
   (\<exists>m'. run 8 0 [OpInsert 1 10, OpRehash] wide = Inr m' \<and>
      (1, 10) \<in> set (entries m') \<and> At m' 1 = Inl OutOfRange) \<and>
   (\<exists>m :: (nat, nat) ConcurrentHashMap.
      ConcurrentHashMap_sized_threads 8 715827883 1 far_hash = Inr m \<and>
      Rehashing 8 m = Inl LengthError)"
proof -
  from wide_resized obtain new where
    new: "shape 1 29 new" "addressed far_hash 1 29 new"
    and ent: "mset (concat (map concat new)) = {#(Suc 0, 10)#}"
    and b: "new ! 0 ! 5 = []"
    and reh: "Rehashing 8 (filled (Suc 0)) =
                Inr (filled (Suc 0)\<lparr>storage := new, storage_size := 4294967298\<rparr>)"
    by blast
  define m' where "m' = filled (Suc 0)\<lparr>storage := new, storage_size := 4294967298\<rparr>"
  have m': "count_threads m' = 1" "storage_size m' = 4294967298" "hash_function m' = far_hash"
    "storage m' = new"
    by (simp_all add: m'_def filled_fields)
  have "set_mset (mset (entries m')) = {(1, 10)}" by (simp add: entries_def m'(4) ent)
  then have pres: "(1, 10) \<in> set (entries m')" by simp
  have k: "key_index 1 (new ! 0 ! 5) = None" by (simp add: b)
  have at: "At m' 1 = Inl OutOfRange"
    unfolding At_def by (simp only: resized_bucket(1-3) [OF new m'] sum.case k option.case)
  have 1: "apply_op 8 0 (OpInsert 1 10) wide = Inr (filled (Suc 0))" using wide_insert by simp
  have 2: "apply_op 8 0 OpRehash (filled (Suc 0)) = Inr m'" using reh by (simp add: m'_def)
  have r: "run 8 0 [OpInsert 1 10, OpRehash] wide = Inr m'"
    by (simp only: run_step [OF 1] run_step [OF 2] run.simps(1))
  define n :: "(nat, nat) ConcurrentHashMap" where
    "n = \<lparr>count_threads = 1, storage_size = 715827883, size_m = 0, hash_function = far_hash,
          storage = replicate 1 (replicate 715827883 [])\<rparr>"
  have c: "ConcurrentHashMap_sized_threads 8 715827883 1 far_hash = Inr n"
    by (simp add: ConcurrentHashMap_sized_threads_def n_def size_t_of_int_def Let_def
          add_sz_def sub_sz_def kDefaultSize_def max_size_def)
  have "Rehashing 8 n = Inl LengthError"
    unfolding Rehashing_def Let_def
    using narrow_length_error by (simp add: n_def)
  with c r pres at wide_constructed show ?thesis by blast
qed

subsection \<open>C7: the sizes after a resize\<close>

text \<open>
  Within the range of \<open>int\<close> the property of claim C7 holds. On a well-formed object whose
  bucket budget \<open>storage_size * count_threads * 3\<close> is below \<open>2 ^ 31\<close>, \<open>Rehashing\<close>
  returns an object whose \<open>storage_size\<close> is that budget divided by the shard count,
  rounded up, which is exactly three times the old one; the shard count is unchanged,
  and the new storage has that many shards, each of three times as many buckets.
\<close>

theorem Rehashing_sizing:
  fixes m :: "('k, 'v) ConcurrentHashMap"
  assumes "wf hw m" "rehash_fits m"
  shows "\<exists>m'. Rehashing hw m = Inr m' \<and>
           storage_size m' = ceiling_div (storage_size m * count_threads m * 3) (count_threads m) \<and>
           storage_size m' = 3 * storage_size m \<and>
           count_threads m' = count_threads m \<and>
           length (storage m') = count_threads m \<and>
           list_all (\<lambda>shard. length shard = 3 * storage_size m) (storage m')"
proof -
  from Rehashing_wf [OF assms] obtain m' where
    m': "Rehashing hw m = Inr m'" "storage_size m' = 3 * storage_size m"
      "count_threads m' = count_threads m"
      "shape (count_threads m) (3 * storage_size m) (storage m')"
    by blast
  have "storage_size m * count_threads m * 3 = (3 * storage_size m) * count_threads m" by simp
  then have "ceiling_div (storage_size m * count_threads m * 3) (count_threads m)
               = 3 * storage_size m"
    using wf_D(1) [OF assms(1)] by (simp only: ceiling_div_mult)
  with m' show ?thesis by (simp add: shape_def)
qed

theorem Rehashing_sizing_witness:
  "wf 1 (ConcurrentHashMap_default 1 (\<lambda>k::nat. k) :: (nat, nat) ConcurrentHashMap) \<and>
   rehash_fits (ConcurrentHashMap_default 1 (\<lambda>k::nat. k) :: (nat, nat) ConcurrentHashMap) \<and>
   (\<exists>m'. Rehashing 1 (ConcurrentHashMap_default 1 (\<lambda>k::nat. k) :: (nat, nat) ConcurrentHashMap)
            = Inr m' \<and>
         storage_size m' = 87 \<and> count_threads m' = 1 \<and> length (storage m') = 1 \<and>
         list_all (\<lambda>shard. length shard = 87) (storage m'))"
proof -
  from Rehashing_sizing [OF example_wf example_fits] obtain m' where
    "Rehashing 1 (ConcurrentHashMap_default 1 (\<lambda>k::nat. k) :: (nat, nat) ConcurrentHashMap)
       = Inr m'"
    "storage_size m' = 87" "count_threads m' = 1" "length (storage m') = 1"
    "list_all (\<lambda>shard. length shard = 87) (storage m')"
    by (auto simp: example_fields)
  with example_wf example_fits show ?thesis by simp
qed

text \<open>
  Claim C7 (resize sizing: whenever the resize runs, the bucket count per shard becomes
  exactly three times the old one). The code breaks it where the bucket budget does not
  fit \<open>int\<close>. \<open>ConcurrentHashMap(1431655766, 1, far_hash)\<close> has one shard of 1431655766
  buckets. \<open>Rehashing\<close> computes the budget \<open>1431655766 * 1 * 3 = 4294967298\<close> in
  \<open>size_t\<close> and passes it for the parameter \<open>int expected_size\<close>, where it is 2; the
  constructed storage has \<open>max(29, 2) = 29\<close> buckets per shard. The last assignment of
  \<open>Rehashing\<close> computes \<open>storage_size_ = 4294967298\<close> from the same budget without the
  narrowing. The object returned has 29 buckets in its shard, not three times
  1431655766, and a \<open>storage_size\<close> that is not the length of its bucket array.
\<close>

theorem Rehashing_sizing_beyond_int:
  "ConcurrentHashMap_sized_threads 8 1431655766 1 far_hash = Inr wide \<and>
   count_threads wide = 1 \<and> storage_size wide = 1431655766 \<and>
   (\<exists>m'. Rehashing 8 wide = Inr m' \<and> count_threads m' = 1 \<and>
      storage_size m' = 4294967298 \<and> length (storage m') = 1 \<and>
      list_all (\<lambda>shard. length shard = 29) (storage m'))"
proof -
  from filled_Rehashing [of 0, unfolded filled.simps] obtain new where
    "shape 1 29 new" "Rehashing 8 wide = Inr (wide\<lparr>storage := new, storage_size := 4294967298\<rparr>)"
    by auto
  then have "\<exists>m'. Rehashing 8 wide = Inr m' \<and> count_threads m' = 1 \<and>
      storage_size m' = 4294967298 \<and> length (storage m') = 1 \<and>
      list_all (\<lambda>shard. length shard = 29) (storage m')"
    by (simp add: shape_def wide_def)
  then show ?thesis using wide_constructed by (simp add: wide_def)
qed

subsection \<open>C8: the sizes after construction\<close>

text \<open>
  Claim C8, as amended (construction sizing). With a positive hardware hint \<open>hw\<close> and a
  non-negative expected size, the two-argument constructor returns an object with
  \<open>hw\<close> shards and \<open>max(29, ceil(expected_size / shards))\<close> buckets per shard; with a
  positive desired shard count as well, the three-argument constructor returns an
  object with \<open>min(desired, hw)\<close> shards, never more than \<open>hw\<close>, and the same
  bucket rule. Neither raises an error, and an expected size of 0 gives 29 buckets.
\<close>

theorem construction_sizing:
  assumes "0 < sint hw" "0 \<le> sint expected_size" "0 < sint expected_threads_count"
  shows "(\<exists>m :: ('k, 'v) ConcurrentHashMap.
            ConcurrentHashMap_sized hw expected_size hasher = Inr m \<and>
            count_threads m = nat (sint hw) \<and>
            storage_size m =
              max 29 (ceiling_div (nat (sint expected_size)) (count_threads m)) \<and>
            (sint expected_size = 0 \<longrightarrow> storage_size m = 29) \<and>
            storage m = replicate (count_threads m) (replicate (storage_size m) []) \<and>
            Size m = 0) \<and>
         (\<exists>m :: ('k, 'v) ConcurrentHashMap.
            ConcurrentHashMap_sized_threads hw expected_size expected_threads_count hasher
              = Inr m \<and>
            count_threads m = min (nat (sint expected_threads_count)) (nat (sint hw)) \<and>
            count_threads m \<le> nat (sint hw) \<and>
            storage_size m =
              max 29 (ceiling_div (nat (sint expected_size)) (count_threads m)) \<and>
            (sint expected_size = 0 \<longrightarrow> storage_size m = 29) \<and>
            storage m = replicate (count_threads m) (replicate (storage_size m) []) \<and>
            Size m = 0)"
proof (intro conjI)
  have ct: "0 < nat (sint hw)" "nat (sint hw) \<le> nat (sint hw)" using assms(1) by simp_all
  have z: "sint expected_size = 0 \<longrightarrow>
             max 29 (ceiling_div (nat (sint expected_size)) (nat (sint hw))) = 29"
    by (simp add: ceiling_div_def)
  show "\<exists>m :: ('k, 'v) ConcurrentHashMap.
            ConcurrentHashMap_sized hw expected_size hasher = Inr m \<and>
            count_threads m = nat (sint hw) \<and>
            storage_size m =
              max 29 (ceiling_div (nat (sint expected_size)) (count_threads m)) \<and>
            (sint expected_size = 0 \<longrightarrow> storage_size m = 29) \<and>
            storage m = replicate (count_threads m) (replicate (storage_size m) []) \<and>
            Size m = 0"
    unfolding ConcurrentHashMap_sized_def Let_def hw_threads(1) [OF assms(1)]
      sized_value [OF assms(1,2) ct]
    using ct(1) z
    by (simp only: sized_length [OF assms(2)] if_False) (simp add: Size_def kDefaultSize_def)
next
  define ct where "ct = min (nat (sint expected_threads_count)) (nat (sint hw))"
  have t: "size_t_of_int expected_threads_count = nat (sint expected_threads_count)"
    using assms(3) by (intro size_t_of_int_nonneg) simp
  have m: "min (size_t_of_int hw) (size_t_of_int expected_threads_count) = ct"
    by (simp add: ct_def t hw_threads(1) [OF assms(1)] min.commute)
  have ct: "0 < ct" "ct \<le> nat (sint hw)" using assms(1,3) by (simp_all add: ct_def)
  have z: "sint expected_size = 0 \<longrightarrow>
             max 29 (ceiling_div (nat (sint expected_size)) ct) = 29"
    by (simp add: ceiling_div_def)
  show "\<exists>m :: ('k, 'v) ConcurrentHashMap.
            ConcurrentHashMap_sized_threads hw expected_size expected_threads_count hasher
              = Inr m \<and>
            count_threads m = min (nat (sint expected_threads_count)) (nat (sint hw)) \<and>
            count_threads m \<le> nat (sint hw) \<and>
            storage_size m =
              max 29 (ceiling_div (nat (sint expected_size)) (count_threads m)) \<and>
            (sint expected_size = 0 \<longrightarrow> storage_size m = 29) \<and>
            storage m = replicate (count_threads m) (replicate (storage_size m) []) \<and>
            Size m = 0"
    unfolding ConcurrentHashMap_sized_threads_def Let_def m sized_value [OF assms(1,2) ct]
      ct_def [symmetric]
    using ct z
    by (simp only: sized_length [OF assms(2)] if_False) (simp add: Size_def kDefaultSize_def)
qed

theorem construction_sizing_witness:
  "0 < sint (8 :: c_int) \<and> 0 \<le> sint (1000 :: c_int) \<and> 0 < sint (3 :: c_int) \<and>
   (\<exists>m :: (nat, nat) ConcurrentHashMap.
      ConcurrentHashMap_sized 8 1000 (\<lambda>k. k) = Inr m \<and>
      count_threads m = 8 \<and> storage_size m = 125) \<and>
   (\<exists>m :: (nat, nat) ConcurrentHashMap.
      ConcurrentHashMap_sized_threads 8 1000 3 (\<lambda>k. k) = Inr m \<and>
      count_threads m = 3 \<and> storage_size m = 334)"
proof -
  have h: "0 < sint (8 :: c_int)" "0 \<le> sint (1000 :: c_int)" "0 < sint (3 :: c_int)"
    by simp_all
  from construction_sizing [OF h, of "\<lambda>k::nat. k", where ?'v = nat]
  obtain m1 m2 :: "(nat, nat) ConcurrentHashMap" where
    "ConcurrentHashMap_sized 8 1000 (\<lambda>k. k) = Inr m1" "count_threads m1 = 8"
    "storage_size m1 = max 29 (ceiling_div 1000 (count_threads m1))"
    "ConcurrentHashMap_sized_threads 8 1000 3 (\<lambda>k. k) = Inr m2" "count_threads m2 = 3"
    "storage_size m2 = max 29 (ceiling_div 1000 (count_threads m2))"
    by auto
  then show ?thesis using h by (simp add: ceiling_div_def)
qed

text \<open>
  The claim as first stated, for every construction, fails outside these conditions. A
  desired shard count of 0 makes the three-argument constructor divide by zero, and so
  does a hardware hint of 0 in the two-argument constructor: an error is raised for a
  degenerate input. A negative expected size is converted to \<open>size_t\<close>: with 8 shards
  and \<open>expected_size = -20\<close> the buckets per shard come to \<open>(2 ^ 64 - 13) div 8\<close>, more
  than \<open>max_size()\<close>, and the constructor throws \<open>std::length_error\<close>.
\<close>

theorem construction_sizing_counterexample:
  "(ConcurrentHashMap_sized_threads 8 1000 0 (\<lambda>k::nat. k) :: error + (nat, nat) ConcurrentHashMap)
     = Inl DivisionByZero \<and>
   (ConcurrentHashMap_sized 0 1000 (\<lambda>k::nat. k) :: error + (nat, nat) ConcurrentHashMap)
     = Inl DivisionByZero \<and>
   (ConcurrentHashMap_sized 8 (- 20) (\<lambda>k::nat. k) :: error + (nat, nat) ConcurrentHashMap)
     = Inl LengthError"
  by (simp add: ConcurrentHashMap_sized_threads_def ConcurrentHashMap_sized_def size_t_of_int_def
        Let_def add_sz_def sub_sz_def kDefaultSize_def max_size_def)

subsection \<open>C9: Clear\<close>

text \<open>
  Claim C9 (Clear resets fully). After \<open>Clear\<close>, on any object whatever, the size is 0,
  no entry is left, the storage is \<open>count_threads\<close> shards of 29 empty buckets, the
  shard count is unchanged, and neither \<open>Find\<close> nor \<open>At\<close> finds any key; when the
  shard count is positive \<open>Find\<close> answers \<open>(false, V())\<close> and \<open>At\<close> throws
  \<open>std::out_of_range\<close>.
\<close>

theorem Clear_resets:
  "Size (Clear m) = 0 \<and> entries (Clear m) = [] \<and>
   storage (Clear m) = replicate (count_threads m) (replicate 29 []) \<and>
   storage_size (Clear m) = 29 \<and> count_threads (Clear m) = count_threads m \<and>
   (\<forall>v. Find (Clear m) dflt k \<noteq> Inr (True, v)) \<and> (\<forall>v. At (Clear m) k \<noteq> Inr v) \<and>
   (0 < count_threads m \<longrightarrow>
      Find (Clear m) dflt k = Inr (False, dflt) \<and> At (Clear m) k = Inl OutOfRange)"
  by (simp add: Clear_fields Clear_lookup kDefaultSize_def)

theorem Clear_resets_witness:
  "0 < count_threads (appended (ConcurrentHashMap_default 1 (\<lambda>k::nat. k)) 5 (7::nat)) \<and>
   5 \<in> keys (appended (ConcurrentHashMap_default 1 (\<lambda>k::nat. k)) 5 (7::nat)) \<and>
   Size (Clear (appended (ConcurrentHashMap_default 1 (\<lambda>k::nat. k)) 5 (7::nat))) = 0 \<and>
   Find (Clear (appended (ConcurrentHashMap_default 1 (\<lambda>k::nat. k)) 5 (7::nat))) 0 5
     = Inr (False, 0) \<and>
   At (Clear (appended (ConcurrentHashMap_default 1 (\<lambda>k::nat. k)) 5 (7::nat))) 5
     = Inl OutOfRange"
proof -
  let ?m0 = "ConcurrentHashMap_default 1 (\<lambda>k::nat. k) :: (nat, nat) ConcurrentHashMap"
  have a: "5 \<notin> keys ?m0" by (simp add: example_keys)
  have k: "keys (appended ?m0 5 7) = {5}"
    using keys_appended [OF example_wf a, of 7] by (simp add: example_keys)
  have c: "0 < count_threads (appended ?m0 5 7)"
    using wf_D(1) [OF example_wf] by (simp add: appended_fields)
  from Clear_resets [of "appended ?m0 5 7" 0 5] c k show ?thesis by simp
qed

subsection \<open>C10: a concurrency hint of zero\<close>

text \<open>
  Claim C10, as amended (zero concurrency hint). The three-argument constructor called with
  a desired shard count of 0 sets \<open>count_threads_\<close> to \<open>min(hw, 0) = 0\<close> and then
  divides by it: the construction itself is a division by zero, whatever the other
  arguments are. On an object whose shard count is 0 (the default constructor returns
  one when the hardware hint is 0), \<open>Insert\<close>, \<open>Erase\<close>, \<open>Find\<close> and \<open>At\<close> take a
  remainder by zero in \<open>GetHash\<close>; \<open>Rehashing\<close> does not call \<open>GetHash\<close> there (its
  loops run zero times) and divides by zero in the constructor it calls.
\<close>

theorem zero_concurrency_hint:
  fixes m :: "('k, 'v) ConcurrentHashMap"
  shows "(ConcurrentHashMap_sized_threads hw expected_size 0 hasher
            :: error + ('k, 'v) ConcurrentHashMap) = Inl DivisionByZero \<and>
         (count_threads m = 0 \<longrightarrow>
            Insert hw m k v = Inl ModuloByZero \<and> Erase m k = Inl ModuloByZero \<and>
            Find m dflt k = Inl ModuloByZero \<and> At m k = Inl ModuloByZero \<and>
            Rehashing hw m = Inl DivisionByZero)"
  by (simp add: ConcurrentHashMap_sized_threads_def size_t_of_int_def Insert_def Erase_def
        Find_def At_def Rehashing_def GetHash_def int_of_size_t_def Let_def)

theorem zero_concurrency_hint_witness:
  "count_threads (ConcurrentHashMap_default 0 (\<lambda>k::nat. k) :: (nat, nat) ConcurrentHashMap) = 0 \<and>
   Insert 0 (ConcurrentHashMap_default 0 (\<lambda>k::nat. k)) 5 (7::nat) = Inl ModuloByZero \<and>
   Erase (ConcurrentHashMap_default 0 (\<lambda>k::nat. k) :: (nat, nat) ConcurrentHashMap) 5
     = Inl ModuloByZero \<and>
   Find (ConcurrentHashMap_default 0 (\<lambda>k::nat. k)) (0::nat) 5 = Inl ModuloByZero \<and>
   At (ConcurrentHashMap_default 0 (\<lambda>k::nat. k) :: (nat, nat) ConcurrentHashMap) 5
     = Inl ModuloByZero \<and>
   Rehashing 0 (ConcurrentHashMap_default 0 (\<lambda>k::nat. k) :: (nat, nat) ConcurrentHashMap)
     = Inl DivisionByZero"
proof -
  have z: "count_threads (ConcurrentHashMap_default 0 (\<lambda>k::nat. k) :: (nat, nat) ConcurrentHashMap) = 0"
    by (simp add: ConcurrentHashMap_default_def size_t_of_int_def)
  from zero_concurrency_hint [of 0 0 "\<lambda>k::nat. k"
      "ConcurrentHashMap_default 0 (\<lambda>k::nat. k) :: (nat, nat) ConcurrentHashMap" 5 7 0] z
  show ?thesis by simp
qed

text \<open>
  The claim as first stated fails: construction with a zero hint returns no object on
  which a later operation could run, and \<open>Rehashing\<close> on a zero-shard object fails by
  a division, not by the remainder in \<open>GetHash\<close>.
\<close>

theorem zero_concurrency_hint_counterexample:
  "(ConcurrentHashMap_sized_threads 4 10 0 (\<lambda>k::nat. k) :: error + (nat, nat) ConcurrentHashMap)
     = Inl DivisionByZero \<and>
   Rehashing 4 \<lparr>count_threads = 0, storage_size = 29, size_m = 0,
      hash_function = (\<lambda>k::nat. k), storage = ([] :: (nat, nat) buckets)\<rparr>
     = Inl DivisionByZero"
  by (simp add: ConcurrentHashMap_sized_threads_def size_t_of_int_def Rehashing_def
        int_of_size_t_def Let_def)

end
